theory Spec2Isabelle
  imports Complex_Main "HOL-Library.AList"
begin

section \<open>The pool supervisor of src/internal/Supervisor.js\<close>

text \<open>
  The supervisor is a JavaScript class driven by an event loop. Its fields become a
  record, every method a function from the record to the updated record, and everything
  the class does to the outside (events emitted, messages sent to workers, processes
  launched, signals sent) is appended to a trace kept in the record. A method that may
  throw returns a completion next to the state: JavaScript does not undo the assignments
  made before a \<^verbatim>\<open>throw\<close>.
\<close>

subsection \<open>Settings\<close>

text \<open>
  The settings object, restricted to the options the class reads. A field that is
  \<open>None\<close> is a property the object does not have (\<^verbatim>\<open>'workerCount' in settings\<close> is
  false, reading it gives \<^verbatim>\<open>undefined\<close>). Numbers are integers; \<open>workerEnv\<close> is the
  function from a worker id to environment overrides.
\<close>

record settings =
  workerCount :: "int option"
  minWorkerCount :: "int option"
  workerEnv :: "(string \<Rightarrow> (string \<times> string) list) option"
  exec :: "string option"
  args :: "string list option"
  env :: "(string \<times> string) list option"
  execArgv :: "string list option"
  gentleStopTimeout :: "int option"
  killTimeout :: "int option"
  heartbeatWorkerInterval :: "int option"
  heartbeatMonitorInterval :: "int option"
  heartbeatStallTolerance :: "int option"

definition no_settings :: settings where
  "no_settings = \<lparr>workerCount = None, minWorkerCount = None, workerEnv = None,
     exec = None, args = None, env = None, execArgv = None,
     gentleStopTimeout = None, killTimeout = None, heartbeatWorkerInterval = None,
     heartbeatMonitorInterval = None, heartbeatStallTolerance = None\<rparr>"

definition DEFAULT_SETTINGS :: settings where
  "DEFAULT_SETTINGS = no_settings\<lparr>gentleStopTimeout := Some 5000, killTimeout := Some 2000,
     heartbeatWorkerInterval := Some 500, heartbeatMonitorInterval := Some 1000,
     heartbeatStallTolerance := Some 5000\<rparr>"

text \<open>One property of \<^verbatim>\<open>{...a, ...b}\<close>: the value of \<open>b\<close> when \<open>b\<close> has the property.\<close>

fun later :: "'a option \<Rightarrow> 'a option \<Rightarrow> 'a option" where
  "later a None = a"
| "later a (Some v) = Some v"

definition spread :: "settings \<Rightarrow> settings \<Rightarrow> settings" where
  "spread a b = \<lparr>workerCount = later (workerCount a) (workerCount b),
     minWorkerCount = later (minWorkerCount a) (minWorkerCount b),
     workerEnv = later (workerEnv a) (workerEnv b),
     exec = later (exec a) (exec b),
     args = later (args a) (args b),
     env = later (env a) (env b),
     execArgv = later (execArgv a) (execArgv b),
     gentleStopTimeout = later (gentleStopTimeout a) (gentleStopTimeout b),
     killTimeout = later (killTimeout a) (killTimeout b),
     heartbeatWorkerInterval = later (heartbeatWorkerInterval a) (heartbeatWorkerInterval b),
     heartbeatMonitorInterval = later (heartbeatMonitorInterval a) (heartbeatMonitorInterval b),
     heartbeatStallTolerance = later (heartbeatStallTolerance a) (heartbeatStallTolerance b)\<rparr>"

subsection \<open>Errors\<close>

datatype error = AlreadyConfigured | MissingSetting string | TypeError

datatype 'a completion = Normal 'a | Throw error

subsection \<open>Clock readings\<close>

text \<open>
  \<^verbatim>\<open>process.hrtime()\<close> returns the pair [seconds, nanoseconds] of a monotonic clock, and
  \<^verbatim>\<open>process.hrtime(past)\<close> the same pair for the time since \<open>past\<close>. The clock never runs
  backwards, so the truncating subtraction below is only ever applied to \<open>past \<le> now\<close>.
\<close>

type_synonym hrtime = "nat \<times> nat"

definition hrtime_ns :: "hrtime \<Rightarrow> nat" where
  "hrtime_ns t = fst t * 1000000000 + snd t"

definition hrtime_since :: "hrtime \<Rightarrow> hrtime \<Rightarrow> hrtime" where
  "hrtime_since now past =
     (let d = hrtime_ns now - hrtime_ns past in (d div 1000000000, d mod 1000000000))"

text \<open>
  \<^verbatim>\<open>Math.floor((hrtime[0] * 1e3) + (hrtime[1] / 1e6))\<close>, over the reals: the rounding of
  double arithmetic is not modelled.
\<close>

definition hrtimeToMilliseconds :: "hrtime \<Rightarrow> nat" where
  "hrtimeToMilliseconds hrtime =
     nat \<lfloor>(real (fst hrtime) * 1000) + (real (snd hrtime) / 1000000)\<rfloor>"

subsection \<open>Decimal strings\<close>

text \<open>
  The template literal \<^verbatim>\<open>`${id}`\<close> of a number: its decimal digits. The numbers here are
  integers; those of 21 digits and more, which a double prints with an exponent, are not
  modelled.
\<close>

definition digit :: "nat \<Rightarrow> char" where
  "digit d = (''0123456789'' ! d)"

function string_of_nat :: "nat \<Rightarrow> string" where
  "string_of_nat n =
     (if n < 10 then [digit n] else string_of_nat (n div 10) @ [digit (n mod 10)])"
  by pat_completeness auto
termination
  by (relation "measure (\<lambda>n. n)") auto

declare string_of_nat.simps [simp del]

definition string_of_int :: "int \<Rightarrow> string" where
  "string_of_int i = (if i < 0 then CHR ''-'' # string_of_nat (nat (- i)) else string_of_nat (nat i))"

text \<open>The template literal of a setting that may be absent.\<close>

definition template :: "int option \<Rightarrow> string" where
  "template v = (case v of None \<Rightarrow> ''undefined'' | Some i \<Rightarrow> string_of_int i)"

subsection \<open>Processes and workers\<close>

text \<open>
  The handle \<^verbatim>\<open>fork\<close> returns. \<open>exited\<close> is set by the runtime when the process has
  ended; \<open>exitListener\<close> says that the one-shot \<^verbatim>\<open>'exit'\<close> listener of
  \<open>connectWorkerProcessEvents\<close> is attached and has not run yet.
\<close>

record process_handle =
  pid :: nat
  exited :: bool
  exitListener :: bool

datatype wstate = Down | Up

text \<open>
  Modelled from the spec: the class BaseWorker (./BaseWorker is imported, its file is not
  among the sources). The spec gives a worker an id, a state, a process handle, a liveness
  query, a send primitive and \<open>setProcess\<close>, which swaps the process handle.
\<close>

record worker =
  worker_id :: string
  state :: wstate
  process :: process_handle

definition isDead :: "worker \<Rightarrow> bool" where
  "isDead w = exited (process w)"

definition setProcess :: "worker \<Rightarrow> process_handle \<Rightarrow> worker" where
  "setProcess w p = w\<lparr>process := p\<rparr>"

subsection \<open>What the supervisor does to the outside\<close>

datatype act = Shutdown | Healthy | Unhealthy

datatype signal = SIGTERM | SIGKILL

datatype event =
    WorkerUp string
  | WorkerDown string "int option" "string option"
  | WorkerTerminated string
  | WorkerHeartbeat string
  | WorkerAllUp
  | WorkerStall string
  | InfoWorkersUpCount nat "int option" "int option"
  | InfoWorkerHeartbeatDelta string nat
  | InfoLiveWorkersAtKill signal nat
  | InfoGentleStopTimeout "int option"
  | InfoKillTimeout signal "int option"

text \<open>
  \<open>Send k p a\<close>: the message \<^verbatim>\<open>{act: a, poolHallInternal: true}\<close> sent to worker \<open>k\<close>, whose
  process is \<open>p\<close>. \<open>Fork p exec args env execArgv\<close>: a process launched, \<open>p\<close> the new pid.
  \<open>Kill p sig\<close>: \<^verbatim>\<open>process.kill(sig)\<close> on process \<open>p\<close>.
\<close>

datatype effect =
    Emit event
  | Send string nat act
  | Fork nat "string option" "string list option" "(string \<times> string) list" "string list"
  | Kill nat signal

subsection \<open>Promises and timers\<close>

text \<open>
  The \<^verbatim>\<open>Promise.all\<close> of the workers' first \<^verbatim>\<open>'up'\<close> events, built by createWorkerPool:
  the ids still waited for, and whether its continuation has run.
\<close>

datatype join = NoJoin | Joining "string list" | Joined

text \<open>A timer handle of \<^verbatim>\<open>setTimeout\<close>: its delay and whether it still holds the process alive.\<close>

datatype timeout = Timeout "int option" bool

text \<open>
  The promise chain one call of \<open>stop\<close> returns. It is in one of three timed waits or
  settled; \<open>awaiting\<close> lists the workers whose one-shot \<^verbatim>\<open>'down'\<close> listener, registered
  for the current wait, has not fired, and \<open>timer\<close> is the timer raceTo armed for the
  current wait (line 25), \<open>None\<close> once \<^verbatim>\<open>clearTimeout\<close> has run and no new wait has begun.
  \<open>PROMISE_TIMEOUT\<close> is the sentinel of the source.
\<close>

datatype resolution = Resolved | PROMISE_TIMEOUT

datatype outcome = Fulfilled resolution | Rejected error

datatype phase = GentleStop | KillSweep signal | Settled outcome

record run =
  phase :: phase
  awaiting :: "string list"
  timer :: "timeout option"

subsection \<open>The supervisor\<close>

text \<open>
  The first nine fields are the fields the constructor sets. The others belong to the
  runtime around the object: the trace of effects, the next process id \<^verbatim>\<open>fork\<close> hands out,
  the callbacks queued with \<^verbatim>\<open>process.nextTick\<close> (each replaces the process of the worker
  named), the join of the ready promises, and the chains of the calls of \<open>stop\<close>.
\<close>

record supervisor =
  configured :: bool
  initializing :: bool
  workerPoolCreated :: bool
  workers :: "(string \<times> worker) list"
  settings :: settings
  closing :: bool
  heartbeatTimestamps :: "string \<rightharpoonup> hrtime"
  heartbeatTimeout :: "timeout option"
  heartbeatStartedAt :: "hrtime option"
  trace :: "effect list"
  nextPid :: nat
  nextTickQueue :: "string list"
  allReady :: join
  stops :: "run list"

definition constructor :: supervisor where
  "constructor = \<lparr>configured = False, initializing = True, workerPoolCreated = False,
     workers = [], settings = no_settings, closing = False,
     heartbeatTimestamps = Map.empty, heartbeatTimeout = None, heartbeatStartedAt = None,
     trace = [], nextPid = 0, nextTickQueue = [], allReady = NoJoin, stops = []\<rparr>"

definition emit :: "supervisor \<Rightarrow> event \<Rightarrow> supervisor" where
  "emit s e = s\<lparr>trace := trace s @ [Emit e]\<rparr>"

subsection \<open>configure\<close>

definition derivedMin :: "int option \<Rightarrow> int option" where
  "derivedMin wc = (case wc of None \<Rightarrow> None
     | Some n \<Rightarrow> Some (if n \<ge> 4 then n - 2 else n))"

definition configure :: "supervisor \<Rightarrow> settings \<Rightarrow> settings \<Rightarrow> unit completion \<times> supervisor" where
  "configure s st baseSettings =
     (if configured s then (Throw AlreadyConfigured, s)
      else let s1 = s\<lparr>configured := True\<rparr> in
        if workerCount st = None then (Throw (MissingSetting ''workerCount''), s1)
        else if workerEnv st = None then (Throw (MissingSetting ''workerEnv''), s1)
        else let merged = spread (spread DEFAULT_SETTINGS baseSettings) st in
          (Normal (),
           s1\<lparr>settings := (if minWorkerCount merged = None
                then merged\<lparr>minWorkerCount := derivedMin (workerCount merged)\<rparr>
                else merged)\<rparr>))"

subsection \<open>Broadcasts and pool health\<close>

text \<open>\<^verbatim>\<open>Object.values(this.workers).forEach(worker => worker.send(...))\<close>.\<close>

definition broadcast :: "supervisor \<Rightarrow> act \<Rightarrow> effect list" where
  "broadcast s a = map (\<lambda>(k, w). Send (worker_id w) (pid (process w)) a) (workers s)"

definition internalSend :: "supervisor \<Rightarrow> act \<Rightarrow> supervisor" where
  "internalSend s a = s\<lparr>trace := trace s @ broadcast s a\<rparr>"

definition workersUp :: "supervisor \<Rightarrow> nat" where
  "workersUp s = length (filter (\<lambda>(k, w). state w = Up) (workers s))"

text \<open>
  \<^verbatim>\<open>workersUp === workerCount\<close> and \<^verbatim>\<open>workersUp >= minWorkerCount\<close>, for a count and a
  setting that may be \<^verbatim>\<open>undefined\<close>: both are false then.
\<close>

definition strictEq :: "nat \<Rightarrow> int option \<Rightarrow> bool" where
  "strictEq n v = (case v of None \<Rightarrow> False | Some i \<Rightarrow> int n = i)"

definition greaterEq :: "nat \<Rightarrow> int option \<Rightarrow> bool" where
  "greaterEq n v = (case v of None \<Rightarrow> False | Some i \<Rightarrow> int n \<ge> i)"

definition setPoolHealth :: "supervisor \<Rightarrow> supervisor" where
  "setPoolHealth s =
     (let n = workersUp s;
          s1 = emit s (InfoWorkersUpCount n (workerCount (settings s)) (minWorkerCount (settings s)))
      in if initializing s1 then
           (if strictEq n (workerCount (settings s1))
            then (internalSend s1 Healthy)\<lparr>initializing := False\<rparr>
            else internalSend s1 Unhealthy)
         else if greaterEq n (minWorkerCount (settings s1)) then internalSend s1 Healthy
         else internalSend s1 Unhealthy)"

subsection \<open>Heartbeats\<close>

text \<open>\<^verbatim>\<open>this.heartbeatTimestamps[workerId] || this.heartbeatStartedAt\<close>; \<open>None\<close> is \<^verbatim>\<open>null\<close>.\<close>

definition lastHeartbeat :: "supervisor \<Rightarrow> string \<Rightarrow> hrtime option" where
  "lastHeartbeat s workerId =
     (case heartbeatTimestamps s workerId of Some t \<Rightarrow> Some t | None \<Rightarrow> heartbeatStartedAt s)"

definition recordHeartbeat :: "hrtime \<Rightarrow> supervisor \<Rightarrow> string \<Rightarrow> supervisor" where
  "recordHeartbeat now s workerId =
     (let s1 = (case lastHeartbeat s workerId of
                  None \<Rightarrow> s
                | Some past \<Rightarrow> emit s (InfoWorkerHeartbeatDelta workerId
                                 (hrtimeToMilliseconds (hrtime_since now past))))
      in s1\<lparr>heartbeatTimestamps := (heartbeatTimestamps s1)(workerId \<mapsto> now)\<rparr>)"

text \<open>
  The body of the \<^verbatim>\<open>forEach\<close> of monitorHeartbeat, over the entries that passed the filter.
  \<^verbatim>\<open>process.hrtime(null)\<close> throws a TypeError, which ends the loop.
\<close>

fun monitorEach :: "hrtime \<Rightarrow> (string \<times> worker) list \<Rightarrow> supervisor \<Rightarrow> unit completion \<times> supervisor" where
  "monitorEach now [] s = (Normal (), s)"
| "monitorEach now ((workerId, w) # rest) s =
     (case lastHeartbeat s workerId of
        None \<Rightarrow> (Throw TypeError, s)
      | Some workerHeartbeatTimestamp \<Rightarrow>
          (let heartbeatDelta = hrtimeToMilliseconds (hrtime_since now workerHeartbeatTimestamp)
           in monitorEach now rest
                (if greaterEq heartbeatDelta (heartbeatStallTolerance (settings s))
                 then emit (emit s (WorkerStall workerId))
                        (InfoWorkerHeartbeatDelta workerId heartbeatDelta)
                 else s)))"

definition monitorHeartbeat :: "hrtime \<Rightarrow> supervisor \<Rightarrow> unit completion \<times> supervisor" where
  "monitorHeartbeat now s =
     (case monitorEach now (filter (\<lambda>(k, w). \<not> isDead w) (workers s)) s of
        (Throw e, s1) \<Rightarrow> (Throw e, s1)
      | (Normal u, s1) \<Rightarrow>
          (Normal (),
           s1\<lparr>heartbeatTimeout := Some (Timeout (heartbeatMonitorInterval (settings s1)) False)\<rparr>))"

subsection \<open>Launching and replacing processes\<close>

text \<open>
  An object literal with spread properties: the properties are assigned in order, and a
  later one of the same name replaces the value of the earlier one in its place.
\<close>

definition objectLiteral :: "(string \<times> string) list \<Rightarrow> (string \<times> string) list" where
  "objectLiteral ps = fold (\<lambda>(k, v). AList.update k v) ps []"

definition createWorkerProcess :: "supervisor \<Rightarrow> string \<Rightarrow> process_handle completion \<times> supervisor" where
  "createWorkerProcess s i =
     (case workerEnv (settings s) of
        None \<Rightarrow> (Throw TypeError, s)
      | Some f \<Rightarrow>
          (case execArgv (settings s) of
             None \<Rightarrow> (Throw TypeError, s)
           | Some av \<Rightarrow>
               (let e = objectLiteral
                      ((case env (settings s) of None \<Rightarrow> [] | Some b \<Rightarrow> b) @ f i @
                       [(''POOL_HALL_ID'', i),
                        (''POOL_HALL_HEARTBEAT_INTERVAL'',
                         template (heartbeatWorkerInterval (settings s)))])
                in (Normal \<lparr>pid = nextPid s, exited = False, exitListener = False\<rparr>,
                    s\<lparr>trace := trace s @ [Fork (nextPid s) (exec (settings s)) (args (settings s)) e av],
                      nextPid := Suc (nextPid s)\<rparr>))))"

text \<open>Attaching the one-shot \<^verbatim>\<open>'exit'\<close> listener to the process a worker holds.\<close>

definition connectWorkerProcessEvents :: "worker \<Rightarrow> worker" where
  "connectWorkerProcessEvents w = w\<lparr>process := (process w)\<lparr>exitListener := True\<rparr>\<rparr>"

text \<open>The loop of createWorkerPool over the ids; it returns the ready promises it collected.\<close>

fun createWorkers :: "int list \<Rightarrow> supervisor \<Rightarrow> string list \<Rightarrow> string list completion \<times> supervisor" where
  "createWorkers [] s workerReadyPromises = (Normal workerReadyPromises, s)"
| "createWorkers (i # is) s workerReadyPromises =
     (let strId = string_of_int i in
      case createWorkerProcess s strId of
        (Throw e, s1) \<Rightarrow> (Throw e, s1)
      | (Normal workerProcess, s1) \<Rightarrow>
          (let w = connectWorkerProcessEvents
                     \<lparr>worker_id = strId, state = Down, process = workerProcess\<rparr>
           in createWorkers is
                (s1\<lparr>workers := AList.update strId w (workers s1)\<rparr>)
                (workerReadyPromises @ [strId])))"

definition poolIds :: "int option \<Rightarrow> int list" where
  "poolIds wc = (case wc of None \<Rightarrow> [] | Some n \<Rightarrow> [1..n])"

definition createWorkerPool :: "supervisor \<Rightarrow> unit completion \<times> supervisor" where
  "createWorkerPool s =
     (if workerPoolCreated s then (Normal (), s)
      else case createWorkers (poolIds (workerCount (settings s)))
                  (s\<lparr>workerPoolCreated := True\<rparr>) [] of
             (Throw e, s1) \<Rightarrow> (Throw e, s1)
           | (Normal workerReadyPromises, s1) \<Rightarrow>
               (Normal (), s1\<lparr>allReady := Joining workerReadyPromises\<rparr>))"

text \<open>The continuation of the join: it runs once, when every worker has been up.\<close>

definition allUp :: "hrtime \<Rightarrow> supervisor \<Rightarrow> supervisor" where
  "allUp now s =
     emit (s\<lparr>heartbeatStartedAt := Some now,
             heartbeatTimeout := Some (Timeout (heartbeatMonitorInterval (settings s)) False),
             allReady := Joined\<rparr>) WorkerAllUp"

definition start :: "supervisor \<Rightarrow> unit completion \<times> supervisor" where
  "start s = createWorkerPool (s\<lparr>closing := False\<rparr>)"

text \<open>
  replaceWorkerProcess takes a worker object; here the worker is named by its key in the
  mapping. A key that names no worker leaves the state as it is.
\<close>

definition replaceWorkerProcess :: "supervisor \<Rightarrow> string \<Rightarrow> unit completion \<times> supervisor" where
  "replaceWorkerProcess s k =
     (if \<not> closing s then
        (case map_of (workers s) k of
           None \<Rightarrow> (Normal (), s)
         | Some w \<Rightarrow>
             (case createWorkerProcess s (worker_id w) of
                (Throw e, s1) \<Rightarrow> (Throw e, s1)
              | (Normal workerProcess, s1) \<Rightarrow>
                  (Normal (),
                   s1\<lparr>workers := AList.update k
                        (connectWorkerProcessEvents (setProcess w workerProcess)) (workers s1)\<rparr>)))
      else (Normal (), s))"

subsection \<open>Events of a worker\<close>

text \<open>
  A worker's \<^verbatim>\<open>'down'\<close> event runs its listeners in the order they were registered: first
  the one createWorkerPool registered, which emits \<^verbatim>\<open>'workerDown'\<close> on the supervisor (whose
  first listener is setPoolHealth), then the one-shot listeners of the waits of \<open>stop\<close>.
\<close>

definition resolveDown :: "string \<Rightarrow> run \<Rightarrow> run" where
  "resolveDown k r = r\<lparr>awaiting := removeAll k (awaiting r)\<rparr>"

definition workerEmitDown :: "supervisor \<Rightarrow> string \<Rightarrow> int option \<Rightarrow> string option \<Rightarrow> supervisor" where
  "workerEmitDown s k exitCode signalCode =
     (let s1 = setPoolHealth (emit s (WorkerDown k exitCode signalCode))
      in s1\<lparr>stops := map (resolveDown k) (stops s1)\<rparr>)"

text \<open>
  A worker's \<^verbatim>\<open>'up'\<close> event: \<^verbatim>\<open>'workerUp'\<close> on the supervisor, then the one-shot listener
  of the worker's ready promise.
\<close>

definition resolveReady :: "string \<Rightarrow> join \<Rightarrow> join" where
  "resolveReady k j = (case j of Joining ks \<Rightarrow> Joining (removeAll k ks) | _ \<Rightarrow> j)"

definition workerEmitUp :: "supervisor \<Rightarrow> string \<Rightarrow> supervisor" where
  "workerEmitUp s k =
     (let s1 = setPoolHealth (emit s (WorkerUp k))
      in s1\<lparr>allReady := resolveReady k (allReady s1)\<rparr>)"

datatype message = Ready | Heartbeat | OtherMessage

definition workerInternalMessageHandler :: "hrtime \<Rightarrow> supervisor \<Rightarrow> string \<Rightarrow> message \<Rightarrow> supervisor" where
  "workerInternalMessageHandler now s k m =
     (case m of
        Ready \<Rightarrow> workerEmitUp (s\<lparr>workers := AList.map_entry k (\<lambda>w. w\<lparr>state := Up\<rparr>) (workers s)\<rparr>) k
      | Heartbeat \<Rightarrow> recordHeartbeat now (emit s (WorkerHeartbeat k)) k
      | OtherMessage \<Rightarrow> s)"

subsection \<open>Process exit\<close>

text \<open>
  The listener of connectWorkerProcessEvents, in its two halves: the assignment and the
  \<^verbatim>\<open>'down'\<close> event (lines 222 and 223), then the branch on the exit code (lines 225 to
  229). \<^verbatim>\<open>emit\<close> runs listeners synchronously, so what a listener of \<^verbatim>\<open>'workerDown'\<close> does
  happens between the two halves.
\<close>

definition exitDown :: "supervisor \<Rightarrow> string \<Rightarrow> int option \<Rightarrow> string option \<Rightarrow> supervisor" where
  "exitDown s k exitCode signalCode =
     workerEmitDown (s\<lparr>workers := AList.map_entry k (\<lambda>w. w\<lparr>state := Down\<rparr>) (workers s)\<rparr>)
       k exitCode signalCode"

definition exitBranch :: "supervisor \<Rightarrow> string \<Rightarrow> int option \<Rightarrow> supervisor" where
  "exitBranch s k exitCode =
     (if exitCode = Some 0 then emit s (WorkerTerminated k)
      else s\<lparr>nextTickQueue := nextTickQueue s @ [k]\<rparr>)"

definition exitHandler :: "supervisor \<Rightarrow> string \<Rightarrow> int option \<Rightarrow> string option \<Rightarrow> supervisor" where
  "exitHandler s k exitCode signalCode = exitBranch (exitDown s k exitCode signalCode) k exitCode"

text \<open>
  The runtime's part: a process that ends is marked and its one-shot listener, if it is
  attached, runs once.
\<close>

definition markExited :: "worker \<Rightarrow> worker" where
  "markExited w = w\<lparr>process := (process w)\<lparr>exited := True, exitListener := False\<rparr>\<rparr>"

definition processExit :: "supervisor \<Rightarrow> string \<Rightarrow> int option \<Rightarrow> string option \<Rightarrow> supervisor" where
  "processExit s k exitCode signalCode =
     (case map_of (workers s) k of
        None \<Rightarrow> s
      | Some w \<Rightarrow>
          if exitListener (process w) \<and> \<not> exited (process w)
          then exitHandler (s\<lparr>workers := AList.map_entry k markExited (workers s)\<rparr>)
                 k exitCode signalCode
          else s)"

text \<open>The callbacks queued with \<^verbatim>\<open>process.nextTick\<close>, run in order once the handler returned.\<close>

fun runTicks :: "string list \<Rightarrow> supervisor \<Rightarrow> supervisor" where
  "runTicks [] s = s"
| "runTicks (k # ks) s = runTicks ks (snd (replaceWorkerProcess s k))"

definition ticks :: "supervisor \<Rightarrow> supervisor" where
  "ticks s = runTicks (nextTickQueue s) (s\<lparr>nextTickQueue := []\<rparr>)"

subsection \<open>Shutdown\<close>

text \<open>
  gentleStop and killProcesses return a promise: here the list of workers whose
  \<^verbatim>\<open>'down'\<close> event it waits for. The empty list is a promise that is already resolved.
\<close>

definition gentleStop :: "supervisor \<Rightarrow> string list \<times> supervisor" where
  "gentleStop s = (map fst (workers s), internalSend s Shutdown)"

definition killProcesses :: "supervisor \<Rightarrow> signal \<Rightarrow> string list \<times> supervisor" where
  "killProcesses s sig =
     (let liveWorkers = filter (\<lambda>(k, w). \<not> isDead w) (workers s) in
      if length liveWorkers > 0 then
        (map fst liveWorkers,
         (emit s (InfoLiveWorkersAtKill sig (length liveWorkers)))
           \<lparr>trace := trace (emit s (InfoLiveWorkersAtKill sig (length liveWorkers))) @
              map (\<lambda>(k, w). Kill (pid (process w)) sig) liveWorkers\<rparr>)
      else ([], s))"

text \<open>
  The reactions raceTo attaches to the race (lines 27 to 36), given how the race settled:
  \<open>onTimeout\<close> runs when the timer won, and the result is passed on.
\<close>

definition raceTo :: "outcome \<Rightarrow> (supervisor \<Rightarrow> supervisor) \<Rightarrow> supervisor \<Rightarrow> outcome \<times> supervisor" where
  "raceTo res onTimeout s =
     (case res of
        Fulfilled PROMISE_TIMEOUT \<Rightarrow> (Fulfilled PROMISE_TIMEOUT, onTimeout s)
      | Fulfilled Resolved \<Rightarrow> (Fulfilled Resolved, s)
      | Rejected err \<Rightarrow> (Rejected err, s))"

text \<open>
  killSequence: the sweep runs and raceTo begins a new timed wait, arming a timer of
  \<open>killTimeout\<close> milliseconds.
\<close>

definition killSequence :: "signal \<Rightarrow> supervisor \<Rightarrow> supervisor \<times> run" where
  "killSequence sig s =
     (case killProcesses s sig of
        (p, s1) \<Rightarrow>
          (s1, \<lparr>phase = KillSweep sig, awaiting = p,
                timer = Some (Timeout (killTimeout (settings s1)) True)\<rparr>))"

definition stop :: "supervisor \<Rightarrow> supervisor" where
  "stop s =
     (case gentleStop (s\<lparr>closing := True\<rparr>) of
        (p, s1) \<Rightarrow>
          s1\<lparr>stops := stops s1 @
               [\<lparr>phase = GentleStop, awaiting = p,
                 timer = Some (Timeout (gentleStopTimeout (settings s1)) True)\<rparr>]\<rparr>)"

text \<open>
  The listener of a process's exit when the owner has subscribed to \<^verbatim>\<open>'workerDown'\<close> a
  listener that calls \<open>stop\<close>: \<^verbatim>\<open>emit\<close> runs it within the \<^verbatim>\<open>'down'\<close> event, before the branch
  on the exit code. The one-shot listeners \<open>stop\<close> registers meanwhile are not called for
  the event under way.
\<close>

definition exitHandlerStopping :: "supervisor \<Rightarrow> string \<Rightarrow> int option \<Rightarrow> string option \<Rightarrow> supervisor" where
  "exitHandlerStopping s k exitCode signalCode =
     exitBranch (stop (exitDown s k exitCode signalCode)) k exitCode"

text \<open>The \<open>onTimeout\<close> callbacks of the three waits.\<close>

fun onTimeout :: "phase \<Rightarrow> supervisor \<Rightarrow> supervisor" where
  "onTimeout GentleStop s = emit s (InfoGentleStopTimeout (gentleStopTimeout (settings s)))"
| "onTimeout (KillSweep sig) s = emit s (InfoKillTimeout sig (killTimeout (settings s)))"
| "onTimeout (Settled res) s = s"

text \<open>
  The chain of \<open>stop\<close> (lines 106 to 111) when the race of the current wait settles with
  \<open>res\<close>: the reactions of raceTo, then \<^verbatim>\<open>.then(f, f)\<close>, which calls the next killSequence
  whether the wait was fulfilled or rejected. After the last wait the chain is settled.
  The reactions clear the timer of the wait that ended; the next wait arms its own.
\<close>

definition settle :: "outcome \<Rightarrow> supervisor \<Rightarrow> run \<Rightarrow> supervisor \<times> run" where
  "settle res s r =
     (case phase r of
        Settled res0 \<Rightarrow> (s, r)
      | GentleStop \<Rightarrow>
          (case raceTo res (onTimeout GentleStop) s of (res1, s1) \<Rightarrow> killSequence SIGTERM s1)
      | KillSweep SIGTERM \<Rightarrow>
          (case raceTo res (onTimeout (KillSweep SIGTERM)) s of (res1, s1) \<Rightarrow> killSequence SIGKILL s1)
      | KillSweep SIGKILL \<Rightarrow>
          (case raceTo res (onTimeout (KillSweep SIGKILL)) s of
             (res1, s1) \<Rightarrow> (s1, \<lparr>phase = Settled res1, awaiting = [], timer = None\<rparr>)))"

fun rank :: "phase \<Rightarrow> nat" where
  "rank GentleStop = 3"
| "rank (KillSweep SIGTERM) = 2"
| "rank (KillSweep SIGKILL) = 1"
| "rank (Settled res) = 0"

text \<open>
  The promise jobs of one chain: while the wait it is in is already won by the awaited
  promise, the chain moves on.
\<close>

function drain :: "supervisor \<Rightarrow> run \<Rightarrow> supervisor \<times> run" where
  "drain s r =
     (if 0 < rank (phase r) \<and> awaiting r = []
      then drain (fst (settle (Fulfilled Resolved) s r)) (snd (settle (Fulfilled Resolved) s r))
      else (s, r))"
  by pat_completeness auto
termination
  by (relation "measure (\<lambda>(s, r). rank (phase r))")
     (auto simp: settle_def killSequence_def raceTo_def
           split: prod.splits phase.splits signal.splits outcome.splits resolution.splits)

declare drain.simps [simp del]

subsection \<open>The event loop\<close>

text \<open>
  One turn of the event loop: a callback runs to completion, then the callbacks queued
  with \<^verbatim>\<open>process.nextTick\<close>, then the promise jobs. The callbacks are the calls of the public
  methods by the owner, a message or the exit of a worker's process, and the timers.
  \<open>RaceTimer n\<close> is the firing of the timer armed for the wait the \<open>n\<close>-th chain of \<open>stop\<close>
  is in; a timer that is not armed does not fire. A method that throws leaves the state
  it reached. Listeners the owner subscribes are outside this machine. The promise jobs
  of several chains run here one chain after the other.
\<close>

datatype input =
    Configure settings settings
  | Start
  | Stop
  | Message string message
  | Exit string "int option" "string option"
  | MonitorTimer
  | RaceTimer nat

definition settleAt :: "nat \<Rightarrow> outcome \<Rightarrow> supervisor \<Rightarrow> supervisor" where
  "settleAt n res s =
     (if n < length (stops s)
      then (case settle res s (stops s ! n) of (s1, r) \<Rightarrow> s1\<lparr>stops := (stops s1)[n := r]\<rparr>)
      else s)"

text \<open>
  The timer of a wait fires (line 25): it is armed no longer, and the race settles with
  the sentinel. A timer that is not armed does not fire.
\<close>

definition fire :: "nat \<Rightarrow> supervisor \<Rightarrow> supervisor" where
  "fire n s =
     (if n < length (stops s) \<and> timer (stops s ! n) \<noteq> None
      then settleAt n (Fulfilled PROMISE_TIMEOUT)
             (s\<lparr>stops := (stops s)[n := (stops s ! n)\<lparr>timer := None\<rparr>]\<rparr>)
      else s)"

definition drainAt :: "nat \<Rightarrow> supervisor \<Rightarrow> supervisor" where
  "drainAt n s =
     (if n < length (stops s)
      then (case drain s (stops s ! n) of (s1, r) \<Rightarrow> s1\<lparr>stops := (stops s1)[n := r]\<rparr>)
      else s)"

definition jobs :: "hrtime \<Rightarrow> supervisor \<Rightarrow> supervisor" where
  "jobs now s =
     fold drainAt [0..<length (stops s)] (if allReady s = Joining [] then allUp now s else s)"

definition macrotask :: "hrtime \<Rightarrow> input \<Rightarrow> supervisor \<Rightarrow> supervisor" where
  "macrotask now i s =
     (case i of
        Configure st baseSettings \<Rightarrow> snd (configure s st baseSettings)
      | Start \<Rightarrow> snd (start s)
      | Stop \<Rightarrow> stop s
      | Message k m \<Rightarrow>
          (case map_of (workers s) k of
             None \<Rightarrow> s
           | Some w \<Rightarrow> workerInternalMessageHandler now s k m)
      | Exit k exitCode signalCode \<Rightarrow> processExit s k exitCode signalCode
      | MonitorTimer \<Rightarrow>
          (case heartbeatTimeout s of None \<Rightarrow> s | Some h \<Rightarrow> snd (monitorHeartbeat now s))
      | RaceTimer n \<Rightarrow> fire n s)"

definition step :: "supervisor \<Rightarrow> hrtime \<times> input \<Rightarrow> supervisor" where
  "step s ti = jobs (fst ti) (ticks (macrotask (fst ti) (snd ti) s))"

definition steps :: "supervisor \<Rightarrow> (hrtime \<times> input) list \<Rightarrow> supervisor" where
  "steps s tis = foldl step s tis"

text \<open>
  The event loop left to itself. An armed timer holds the process alive and fires:
  while a chain of \<open>stop\<close> has an armed timer, the turn of that timer runs. The clock
  reading is passed on to the turns, where only the continuation of the join of the
  ready promises reads it.
\<close>

definition armedChain :: "supervisor \<Rightarrow> nat option" where
  "armedChain s = find (\<lambda>n. timer (stops s ! n) \<noteq> None) [0..<length (stops s)]"

function runTimers :: "hrtime \<Rightarrow> supervisor \<Rightarrow> supervisor" where
  "runTimers now s =
     (case armedChain s of
        None \<Rightarrow> s
      | Some n \<Rightarrow> runTimers now (step s (now, RaceTimer n)))"
  by pat_completeness auto

subsection \<open>Vocabulary of the properties\<close>

text \<open>
  The milliseconds monitorHeartbeat computes for worker \<open>k\<close> at the clock reading \<open>now\<close>:
  the time since the worker's latest recorded heartbeat or, when it has none, since the
  start of the monitoring. The events one monitor tick emits for a worker that is alive.
\<close>

definition elapsed :: "hrtime \<Rightarrow> supervisor \<Rightarrow> string \<Rightarrow> nat" where
  "elapsed now s k =
     (case lastHeartbeat s k of
        None \<Rightarrow> 0
      | Some past \<Rightarrow> (hrtime_ns now - hrtime_ns past) div 1000000)"

definition stallEvents :: "hrtime \<Rightarrow> supervisor \<Rightarrow> string \<Rightarrow> effect list" where
  "stallEvents now s k =
     (if greaterEq (elapsed now s k) (heartbeatStallTolerance (settings s))
      then [Emit (WorkerStall k), Emit (InfoWorkerHeartbeatDelta k (elapsed now s k))]
      else [])"

text \<open>
  The status setPoolHealth broadcasts, as a function of the four values the spec names,
  and the effects of one recomputation: the diagnostic event, then the status sent to
  every worker.
\<close>

definition poolStatus :: "bool \<Rightarrow> nat \<Rightarrow> int option \<Rightarrow> int option \<Rightarrow> act" where
  "poolStatus init up wc mn =
     (if init then (if wc = Some (int up) then Healthy else Unhealthy)
      else (case mn of None \<Rightarrow> Unhealthy | Some m \<Rightarrow> if m \<le> int up then Healthy else Unhealthy))"

definition announce :: "supervisor \<Rightarrow> effect list" where
  "announce s =
     Emit (InfoWorkersUpCount (workersUp s) (workerCount (settings s)) (minWorkerCount (settings s))) #
     broadcast s (poolStatus (initializing s) (workersUp s) (workerCount (settings s))
                    (minWorkerCount (settings s)))"

text \<open>The wait that follows a wait of the chain of \<open>stop\<close>, or its settled state.\<close>

fun nextPhase :: "outcome \<Rightarrow> phase \<Rightarrow> phase" where
  "nextPhase res GentleStop = KillSweep SIGTERM"
| "nextPhase res (KillSweep SIGTERM) = KillSweep SIGKILL"
| "nextPhase res (KillSweep SIGKILL) = Settled res"
| "nextPhase res (Settled res0) = Settled res0"

text \<open>
  The workers a kill sweep finds alive and the effects of the sweep: the diagnostic
  event, then the signal to the process of each of them. The event the reactions of
  raceTo emit when the race of a wait settled with \<open>res\<close>. A chain whose timer is armed
  exactly while it is in one of its waits, and a state all of whose chains are so. How
  far a chain is from the end: two for each wait left and one for an armed timer.
\<close>

definition live :: "supervisor \<Rightarrow> (string \<times> worker) list" where
  "live s = filter (\<lambda>(k, w). \<not> isDead w) (workers s)"

definition sweep :: "supervisor \<Rightarrow> signal \<Rightarrow> effect list" where
  "sweep s sig =
     (if live s = [] then []
      else Emit (InfoLiveWorkersAtKill sig (length (live s))) #
           map (\<lambda>(k, w). Kill (pid (process w)) sig) (live s))"

definition timeoutEvent :: "outcome \<Rightarrow> event \<Rightarrow> effect list" where
  "timeoutEvent res e = (if res = Fulfilled PROMISE_TIMEOUT then [Emit e] else [])"

definition timedRun :: "run \<Rightarrow> bool" where
  "timedRun r = ((timer r = None) = (rank (phase r) = 0))"

definition timed :: "supervisor \<Rightarrow> bool" where
  "timed s = list_all timedRun (stops s)"

definition weight :: "run \<Rightarrow> nat" where
  "weight r = 2 * rank (phase r) + (if timer r = None then 0 else 1)"

definition load :: "supervisor \<Rightarrow> nat" where
  "load s = sum_list (map weight (stops s))"

text \<open>
  Kinds of effects, and the relation between a state and a later one whose trace has
  grown by effects of one kind only.
\<close>

fun isFork :: "effect \<Rightarrow> bool" where
  "isFork (Fork p e a v x) = True"
| "isFork eff = False"

fun isKill :: "effect \<Rightarrow> bool" where
  "isKill (Kill p sig) = True"
| "isKill eff = False"

fun isInfo :: "effect \<Rightarrow> bool" where
  "isInfo (Emit (WorkerUp k)) = False"
| "isInfo (Emit (WorkerDown k c sg)) = False"
| "isInfo (Emit e) = True"
| "isInfo eff = False"

fun healthEffect :: "effect \<Rightarrow> bool" where
  "healthEffect (Emit (WorkerUp k)) = True"
| "healthEffect (Emit (WorkerDown k c sg)) = True"
| "healthEffect (Send k p a) = (a = Healthy \<or> a = Unhealthy)"
| "healthEffect eff = False"

definition extends :: "(effect \<Rightarrow> bool) \<Rightarrow> supervisor \<Rightarrow> supervisor \<Rightarrow> bool" where
  "extends P s s' = (\<exists>X. trace s' = trace s @ X \<and> (\<forall>e\<in>set X. P e))"

text \<open>
  A chain of \<open>stop\<close> at a later moment: it is no further from being settled, and once
  settled it keeps its outcome. \<open>advance\<close> says so of every chain of a state.
\<close>

definition laterRun :: "run \<Rightarrow> run \<Rightarrow> bool" where
  "laterRun r r' = (rank (phase r') \<le> rank (phase r) \<and>
     (\<forall>res. phase r = Settled res \<longrightarrow> phase r' = Settled res))"

definition advance :: "supervisor \<Rightarrow> supervisor \<Rightarrow> bool" where
  "advance s s' = (length (stops s) \<le> length (stops s') \<and>
     (\<forall>m < length (stops s). laterRun (stops s ! m) (stops s' ! m)))"

text \<open>
  Whether the process of worker \<open>k\<close> is running with its exit listener attached, and the
  status a recomputation finds once the state of worker \<open>k\<close> has been set to \<open>st\<close>.
\<close>

definition listening :: "supervisor \<Rightarrow> string \<Rightarrow> bool" where
  "listening s k =
     (case map_of (workers s) k of
        None \<Rightarrow> False
      | Some w \<Rightarrow> exitListener (process w) \<and> \<not> exited (process w))"

definition statusWhen :: "supervisor \<Rightarrow> string \<Rightarrow> wstate \<Rightarrow> act" where
  "statusWhen s k st =
     poolStatus (initializing s)
       (workersUp (s\<lparr>workers := AList.map_entry k (\<lambda>w. w\<lparr>state := st\<rparr>) (workers s)\<rparr>))
       (workerCount (settings s)) (minWorkerCount (settings s))"

text \<open>
  Reading a decimal string back, and the workers a supervisor tracks: each key of the
  mapping with the id of the worker stored under it.
\<close>

definition digitValue :: "char \<Rightarrow> nat" where
  "digitValue c = of_char c - 48"

definition nat_of_string :: "string \<Rightarrow> nat" where
  "nat_of_string cs = foldl (\<lambda>a c. 10 * a + digitValue c) 0 cs"

definition roster :: "supervisor \<Rightarrow> (string \<times> string) list" where
  "roster s = map (\<lambda>(k, w). (k, worker_id w)) (workers s)"

text \<open>
  A supervisor that has what a launch needs whenever it tracks a worker, and that tracks
  none and has no \<open>workerCount\<close> while it is not configured; such a supervisor between two
  turns of the event loop, when no callback of \<^verbatim>\<open>process.nextTick\<close> is queued.
\<close>

definition equipped :: "supervisor \<Rightarrow> bool" where
  "equipped s =
     ((\<not> configured s \<longrightarrow> workerCount (settings s) = None \<and> workers s = []) \<and>
      (workers s \<noteq> [] \<longrightarrow> workerEnv (settings s) \<noteq> None \<and> execArgv (settings s) \<noteq> None))"

definition atRest :: "supervisor \<Rightarrow> bool" where
  "atRest s = (nextTickQueue s = [] \<and> equipped s)"




subsection \<open>Concrete settings and states\<close>

text \<open>
  Settings as an owner passes them: the two required options and the interpreter flags
  the launch needs, for a pool of \<open>n\<close> workers. \<open>pool n\<close> is the supervisor configured with
  them, started, and with every worker ready at the clock reading \<open>(0, 0)\<close>.
\<close>

definition poolSettings :: "int \<Rightarrow> settings" where
  "poolSettings n = no_settings\<lparr>workerCount := Some n, workerEnv := Some (\<lambda>i. []), execArgv := Some []\<rparr>"

definition pool :: "int \<Rightarrow> supervisor" where
  "pool n = steps constructor
     ([((0, 0), Configure (poolSettings n) no_settings), ((0, 0), Start)] @
      map (\<lambda>i. ((0, 0), Message (string_of_int i) Ready)) [1..n])"

text \<open>
  A pool of two in which both workers are up and setPoolHealth has not yet run for the
  second; a pool of four, once fully up, in which worker 3 has gone down.
\<close>

definition warming :: supervisor where
  "warming = (steps constructor
      [((0, 0), Configure (poolSettings 2) no_settings), ((0, 0), Start),
       ((0, 0), Message ''1'' Ready)])
     \<lparr>workers := AList.map_entry ''2'' (\<lambda>w. w\<lparr>state := Up\<rparr>)
        (workers (steps constructor
      [((0, 0), Configure (poolSettings 2) no_settings), ((0, 0), Start),
       ((0, 0), Message ''1'' Ready)]))\<rparr>"

definition degraded :: supervisor where
  "degraded = (pool 4)\<lparr>workers := AList.map_entry ''3'' (\<lambda>w. w\<lparr>state := Down\<rparr>) (workers (pool 4))\<rparr>"


text \<open>A supervisor configured for three workers and not yet started.\<close>

definition configured3 :: supervisor where
  "configured3 = snd (configure constructor (poolSettings 3) no_settings)"

text \<open>The pool of one worker after a call of \<open>stop\<close> at the clock reading \<open>(1, 0)\<close>.\<close>

definition stopping :: supervisor where
  "stopping = step (pool 1) ((1, 0), Stop)"

text \<open>
  The pool of one worker whose owner stops the supervisor when a worker goes down, after
  the turn in which the process of worker 1 exits with code 1.
\<close>

definition crashStopped :: supervisor where
  "crashStopped =
     jobs (1, 0) (ticks (exitHandlerStopping
       ((pool 1)\<lparr>workers := AList.map_entry ''1'' markExited (workers (pool 1))\<rparr>)
       ''1'' (Some 1) None))"

text \<open>
  Settings with the two required options and nothing else, and the supervisor configured
  with them and no base settings.
\<close>

definition bareSettings :: settings where
  "bareSettings = no_settings\<lparr>workerCount := Some 2, workerEnv := Some (\<lambda>i. [])\<rparr>"

definition bare :: supervisor where
  "bare = snd (configure constructor bareSettings no_settings)"


section \<open>Properties\<close>

subsection \<open>Clock arithmetic\<close>

lemma hrtimeToMilliseconds_nat [code]:
  "hrtimeToMilliseconds t = fst t * 1000 + snd t div 1000000"
proof -
  have a: "real (fst t) * 1000 = of_int (int (fst t * 1000))" by simp
  have b: "\<lfloor>real (snd t) / 1000000\<rfloor> = int (snd t div 1000000)"
    using floor_divide_of_nat_eq [of "snd t" 1000000, where ?'a = real] by simp
  have "\<lfloor>real (fst t) * 1000 + real (snd t) / 1000000\<rfloor>
        = int (fst t * 1000) + \<lfloor>real (snd t) / 1000000\<rfloor>"
    unfolding a by (rule int_add_floor [symmetric])
  then show ?thesis unfolding b by (simp add: hrtimeToMilliseconds_def)
qed

lemma ms_since:
  "hrtimeToMilliseconds (hrtime_since now past) = (hrtime_ns now - hrtime_ns past) div 1000000"
proof -
  define d where "d = hrtime_ns now - hrtime_ns past"
  have "d div 1000000000 * 1000 + d mod 1000000000 div 1000000 = d div 1000000"
  proof -
    have a: "d div 1000000000 = (d div 1000000) div 1000"
      by (simp add: div_mult2_eq [symmetric])
    have b: "d mod 1000000000 div 1000000 = (d div 1000000) mod 1000"
      using mod_mult2_eq [of d 1000000 1000] by simp
    show ?thesis unfolding a b by simp
  qed
  then show ?thesis
    by (simp add: hrtimeToMilliseconds_nat hrtime_since_def Let_def d_def)
qed

subsection \<open>The methods as updates of the state\<close>

lemma setPoolHealth_eq:
  "setPoolHealth s =
     s\<lparr>initializing := initializing s \<and> workerCount (settings s) \<noteq> Some (int (workersUp s)),
       trace := trace s @ announce s\<rparr>"
  by (auto simp: setPoolHealth_def Let_def emit_def internalSend_def broadcast_def announce_def
        poolStatus_def strictEq_def greaterEq_def workersUp_def split: option.splits)

lemma recordHeartbeat_eq:
  "recordHeartbeat now s k =
     s\<lparr>trace := trace s @
          (case lastHeartbeat s k of
             None \<Rightarrow> []
           | Some past \<Rightarrow> [Emit (InfoWorkerHeartbeatDelta k ((hrtime_ns now - hrtime_ns past) div 1000000))]),
       heartbeatTimestamps := (heartbeatTimestamps s)(k \<mapsto> now)\<rparr>"
  by (simp add: recordHeartbeat_def Let_def emit_def ms_since split: option.splits)

lemma createWorkerProcess_eq:
  "createWorkerProcess s i =
     (case (workerEnv (settings s), execArgv (settings s)) of
        (Some f, Some av) \<Rightarrow>
          (Normal \<lparr>pid = nextPid s, exited = False, exitListener = False\<rparr>,
           s\<lparr>trace := trace s @
                [Fork (nextPid s) (exec (settings s)) (args (settings s))
                   (objectLiteral ((case env (settings s) of None \<Rightarrow> [] | Some b \<Rightarrow> b) @ f i @
                    [(''POOL_HALL_ID'', i),
                     (''POOL_HALL_HEARTBEAT_INTERVAL'', template (heartbeatWorkerInterval (settings s)))]))
                   av],
             nextPid := Suc (nextPid s)\<rparr>)
      | _ \<Rightarrow> (Throw TypeError, s))"
  by (simp add: createWorkerProcess_def Let_def split: option.splits)

lemma workerEmitDown_eq:
  "workerEmitDown s k c sg =
     s\<lparr>initializing := initializing s \<and> workerCount (settings s) \<noteq> Some (int (workersUp s)),
       trace := trace s @ Emit (WorkerDown k c sg) # announce s,
       stops := map (resolveDown k) (stops s)\<rparr>"
  by (simp add: workerEmitDown_def Let_def setPoolHealth_eq emit_def announce_def workersUp_def broadcast_def)

lemma workerEmitUp_eq:
  "workerEmitUp s k =
     s\<lparr>initializing := initializing s \<and> workerCount (settings s) \<noteq> Some (int (workersUp s)),
       trace := trace s @ Emit (WorkerUp k) # announce s,
       allReady := resolveReady k (allReady s)\<rparr>"
  by (simp add: workerEmitUp_def Let_def setPoolHealth_eq emit_def announce_def workersUp_def broadcast_def)

lemma killProcesses_eq:
  "killProcesses s sig =
     (map fst (filter (\<lambda>(k, w). \<not> isDead w) (workers s)),
      s\<lparr>trace := trace s @
          (if filter (\<lambda>(k, w). \<not> isDead w) (workers s) = [] then []
           else Emit (InfoLiveWorkersAtKill sig (length (filter (\<lambda>(k, w). \<not> isDead w) (workers s)))) #
                map (\<lambda>(k, w). Kill (pid (process w)) sig) (filter (\<lambda>(k, w). \<not> isDead w) (workers s)))\<rparr>)"
  by (simp add: killProcesses_def Let_def emit_def)

lemma replaceWorkerProcess_eq:
  "replaceWorkerProcess s k =
     (if closing s then (Normal (), s)
      else case map_of (workers s) k of
        None \<Rightarrow> (Normal (), s)
      | Some w \<Rightarrow>
          (case (workerEnv (settings s), execArgv (settings s)) of
             (Some f, Some av) \<Rightarrow>
               (Normal (),
                s\<lparr>trace := trace s @
                     [Fork (nextPid s) (exec (settings s)) (args (settings s))
                        (objectLiteral ((case env (settings s) of None \<Rightarrow> [] | Some b \<Rightarrow> b) @ f (worker_id w) @
                         [(''POOL_HALL_ID'', worker_id w),
                          (''POOL_HALL_HEARTBEAT_INTERVAL'',
                           template (heartbeatWorkerInterval (settings s)))]))
                        av],
                  nextPid := Suc (nextPid s),
                  workers := AList.update k
                    (w\<lparr>process := \<lparr>pid = nextPid s, exited = False, exitListener = True\<rparr>\<rparr>)
                    (workers s)\<rparr>)
           | _ \<Rightarrow> (Throw TypeError, s)))"
  by (simp add: replaceWorkerProcess_def createWorkerProcess_eq setProcess_def
        connectWorkerProcessEvents_def split: option.splits)

text \<open>What a state keeps when only its trace, its pid counter and its workers change.\<close>

lemma launch_frame:
  assumes "x = s\<lparr>trace := t, nextPid := n, workers := ws\<rparr>"
  shows "configured x = configured s" and "initializing x = initializing s"
    and "workerPoolCreated x = workerPoolCreated s" and "settings x = settings s"
    and "closing x = closing s" and "heartbeatTimestamps x = heartbeatTimestamps s"
    and "heartbeatTimeout x = heartbeatTimeout s" and "heartbeatStartedAt x = heartbeatStartedAt s"
    and "nextTickQueue x = nextTickQueue s" and "allReady x = allReady s" and "stops x = stops s"
  using assms by simp_all

lemma replaceWorkerProcess_launch:
  "snd (replaceWorkerProcess s k) =
     s\<lparr>trace := trace (snd (replaceWorkerProcess s k)),
       nextPid := nextPid (snd (replaceWorkerProcess s k)),
       workers := workers (snd (replaceWorkerProcess s k))\<rparr>"
  by (simp add: replaceWorkerProcess_eq split: option.splits)

lemmas replaceWorkerProcess_frame = launch_frame [OF replaceWorkerProcess_launch]

lemma runTicks_launch:
  "runTicks ks s =
     s\<lparr>trace := trace (runTicks ks s), nextPid := nextPid (runTicks ks s),
       workers := workers (runTicks ks s)\<rparr>"
proof (induction ks arbitrary: s)
  case Nil
  show ?case by simp
next
  case (Cons k ks)
  define s1 where "s1 = snd (replaceWorkerProcess s k)"
  have a: "s1 = s\<lparr>trace := trace s1, nextPid := nextPid s1, workers := workers s1\<rparr>"
    unfolding s1_def by (rule replaceWorkerProcess_launch)
  have b: "runTicks ks s1 = s1\<lparr>trace := trace (runTicks ks s1), nextPid := nextPid (runTicks ks s1),
       workers := workers (runTicks ks s1)\<rparr>"
    by (rule Cons.IH)
  have "runTicks ks s1 = s\<lparr>trace := trace (runTicks ks s1), nextPid := nextPid (runTicks ks s1),
       workers := workers (runTicks ks s1)\<rparr>"
    by (subst b, subst a) simp
  then show ?case by (simp add: s1_def)
qed

lemmas runTicks_frame = launch_frame [OF runTicks_launch]

lemma ticks_frame:
  "configured (ticks s) = configured s" "initializing (ticks s) = initializing s"
  "workerPoolCreated (ticks s) = workerPoolCreated s" "settings (ticks s) = settings s"
  "closing (ticks s) = closing s" "heartbeatTimestamps (ticks s) = heartbeatTimestamps s"
  "heartbeatTimeout (ticks s) = heartbeatTimeout s" "heartbeatStartedAt (ticks s) = heartbeatStartedAt s"
  "nextTickQueue (ticks s) = []" "allReady (ticks s) = allReady s" "stops (ticks s) = stops s"
  by (simp_all add: ticks_def runTicks_frame)

text \<open>What a state keeps when only its trace changes.\<close>

lemma trace_frame:
  assumes "x = s\<lparr>trace := t\<rparr>"
  shows "configured x = configured s" and "initializing x = initializing s"
    and "workerPoolCreated x = workerPoolCreated s" and "workers x = workers s"
    and "settings x = settings s"
    and "closing x = closing s" and "heartbeatTimestamps x = heartbeatTimestamps s"
    and "heartbeatTimeout x = heartbeatTimeout s" and "heartbeatStartedAt x = heartbeatStartedAt s"
    and "nextPid x = nextPid s"
    and "nextTickQueue x = nextTickQueue s" and "allReady x = allReady s" and "stops x = stops s"
  using assms by simp_all

lemma settle_trace:
  "fst (settle res s r) = s\<lparr>trace := trace (fst (settle res s r))\<rparr>"
  by (simp add: settle_def killSequence_def raceTo_def killProcesses_eq emit_def
        split: phase.splits signal.splits outcome.splits resolution.splits)

lemmas settle_frame = trace_frame [OF settle_trace]

lemma settle_phase: "phase (snd (settle res s r)) = nextPhase res (phase r)"
  by (simp add: settle_def killSequence_def raceTo_def killProcesses_eq
        split: phase.splits signal.splits outcome.splits resolution.splits)

lemma rank_nextPhase: "rank (nextPhase res ph) = rank ph - 1"
  by (cases ph rule: rank.cases) simp_all

lemma settle_settled: "phase r = Settled res0 \<Longrightarrow> settle res s r = (s, r)"
  by (simp add: settle_def)

lemma drain_idle: "rank (phase r) = 0 \<or> awaiting r \<noteq> [] \<Longrightarrow> drain s r = (s, r)"
  by (subst drain.simps) auto

lemma drain_move:
  "0 < rank (phase r) \<Longrightarrow> awaiting r = [] \<Longrightarrow>
   drain s r = drain (fst (settle (Fulfilled Resolved) s r)) (snd (settle (Fulfilled Resolved) s r))"
  by (subst drain.simps) simp

lemma drain_trace: "fst (drain s r) = s\<lparr>trace := trace (fst (drain s r))\<rparr>"
proof (induction s r rule: drain.induct)
  case (1 s r)
  show ?case
  proof (cases "0 < rank (phase r) \<and> awaiting r = []")
    case True
    define s1 where "s1 = fst (settle (Fulfilled Resolved) s r)"
    define r1 where "r1 = snd (settle (Fulfilled Resolved) s r)"
    have d: "drain s r = drain s1 r1"
      using True by (simp add: drain_move s1_def r1_def)
    have a: "s1 = s\<lparr>trace := trace s1\<rparr>" unfolding s1_def by (rule settle_trace)
    have b: "fst (drain s1 r1) = s1\<lparr>trace := trace (fst (drain s1 r1))\<rparr>"
      unfolding s1_def r1_def using True by (intro "1.IH") simp_all
    have "fst (drain s1 r1) = s\<lparr>trace := trace (fst (drain s1 r1))\<rparr>"
      by (subst b, subst a) simp
    then show ?thesis by (simp add: d)
  next
    case False
    then show ?thesis by (simp add: drain_idle)
  qed
qed

lemmas drain_frame = trace_frame [OF drain_trace]

lemma drain_rank: "rank (phase (snd (drain s r))) \<le> rank (phase r)"
proof (induction s r rule: drain.induct)
  case (1 s r)
  show ?case
  proof (cases "0 < rank (phase r) \<and> awaiting r = []")
    case True
    have "rank (phase (snd (drain s r))) \<le>
          rank (phase (snd (settle (Fulfilled Resolved) s r)))"
      using True "1.IH" by (simp add: drain_move)
    then show ?thesis by (simp add: settle_phase rank_nextPhase)
  next
    case False
    then show ?thesis by (simp add: drain_idle)
  qed
qed

lemma drain_settled: "phase r = Settled res0 \<Longrightarrow> drain s r = (s, r)"
  by (simp add: drain_idle)

lemma configure_frame:
  "initializing (snd (configure s st b)) = initializing s"
  "workerPoolCreated (snd (configure s st b)) = workerPoolCreated s"
  "workers (snd (configure s st b)) = workers s"
  "closing (snd (configure s st b)) = closing s"
  "heartbeatTimestamps (snd (configure s st b)) = heartbeatTimestamps s"
  "heartbeatTimeout (snd (configure s st b)) = heartbeatTimeout s"
  "heartbeatStartedAt (snd (configure s st b)) = heartbeatStartedAt s"
  "trace (snd (configure s st b)) = trace s"
  "nextPid (snd (configure s st b)) = nextPid s"
  "nextTickQueue (snd (configure s st b)) = nextTickQueue s"
  "allReady (snd (configure s st b)) = allReady s"
  "stops (snd (configure s st b)) = stops s"
  by (simp_all add: configure_def Let_def)

lemma createWorkerProcess_launch:
  "snd (createWorkerProcess s i) =
     s\<lparr>trace := trace (snd (createWorkerProcess s i)),
       nextPid := nextPid (snd (createWorkerProcess s i))\<rparr>"
  by (simp add: createWorkerProcess_eq split: option.splits)

lemma createWorkers_launch:
  "snd (createWorkers is s ps) =
     s\<lparr>trace := trace (snd (createWorkers is s ps)),
       nextPid := nextPid (snd (createWorkers is s ps)),
       workers := workers (snd (createWorkers is s ps))\<rparr>"
proof (induction "is" arbitrary: s ps)
  case Nil
  show ?case by simp
next
  case (Cons i "is")
  show ?case
  proof (cases "createWorkerProcess s (string_of_int i)")
    case (Pair c s1)
    have a: "s1 = s\<lparr>trace := trace s1, nextPid := nextPid s1\<rparr>"
      using createWorkerProcess_launch [of s "string_of_int i"] Pair by simp
    show ?thesis
    proof (cases c)
      case (Throw e)
      with Pair a show ?thesis by simp
    next
      case (Normal p)
      define w where "w = connectWorkerProcessEvents \<lparr>worker_id = string_of_int i, state = Down, process = p\<rparr>"
      define s2 where "s2 = s1\<lparr>workers := AList.update (string_of_int i) w (workers s1)\<rparr>"
      have d: "createWorkers (i # is) s ps = createWorkers is s2 (ps @ [string_of_int i])"
        using Pair Normal by (simp add: s2_def w_def Let_def)
      have b: "s2 = s\<lparr>trace := trace s2, nextPid := nextPid s2, workers := workers s2\<rparr>"
        unfolding s2_def by (subst a) simp
      have c: "snd (createWorkers is s2 (ps @ [string_of_int i])) =
          s2\<lparr>trace := trace (snd (createWorkers is s2 (ps @ [string_of_int i]))),
            nextPid := nextPid (snd (createWorkers is s2 (ps @ [string_of_int i]))),
            workers := workers (snd (createWorkers is s2 (ps @ [string_of_int i])))\<rparr>"
        by (rule Cons.IH)
      have "snd (createWorkers is s2 (ps @ [string_of_int i])) =
          s\<lparr>trace := trace (snd (createWorkers is s2 (ps @ [string_of_int i]))),
            nextPid := nextPid (snd (createWorkers is s2 (ps @ [string_of_int i]))),
            workers := workers (snd (createWorkers is s2 (ps @ [string_of_int i])))\<rparr>"
        by (subst c, subst b) simp
      then show ?thesis unfolding d .
    qed
  qed
qed

lemmas createWorkers_frame = launch_frame [OF createWorkers_launch]

lemma createWorkerPool_frame:
  "configured (snd (createWorkerPool s)) = configured s"
  "initializing (snd (createWorkerPool s)) = initializing s"
  "settings (snd (createWorkerPool s)) = settings s"
  "closing (snd (createWorkerPool s)) = closing s"
  "heartbeatTimestamps (snd (createWorkerPool s)) = heartbeatTimestamps s"
  "heartbeatTimeout (snd (createWorkerPool s)) = heartbeatTimeout s"
  "heartbeatStartedAt (snd (createWorkerPool s)) = heartbeatStartedAt s"
  "nextTickQueue (snd (createWorkerPool s)) = nextTickQueue s"
  "stops (snd (createWorkerPool s)) = stops s"
  "workerPoolCreated (snd (createWorkerPool s))"
proof -
  obtain c s1 where p: "createWorkers (poolIds (workerCount (settings s)))
                  (s\<lparr>workerPoolCreated := True\<rparr>) [] = (c, s1)"
    by (cases "createWorkers (poolIds (workerCount (settings s))) (s\<lparr>workerPoolCreated := True\<rparr>) []")
  note f = createWorkers_frame [of "poolIds (workerCount (settings s))" "s\<lparr>workerPoolCreated := True\<rparr>" "[]",
      unfolded p, simplified]
  show "configured (snd (createWorkerPool s)) = configured s"
    "initializing (snd (createWorkerPool s)) = initializing s"
    "settings (snd (createWorkerPool s)) = settings s"
    "closing (snd (createWorkerPool s)) = closing s"
    "heartbeatTimestamps (snd (createWorkerPool s)) = heartbeatTimestamps s"
    "heartbeatTimeout (snd (createWorkerPool s)) = heartbeatTimeout s"
    "heartbeatStartedAt (snd (createWorkerPool s)) = heartbeatStartedAt s"
    "nextTickQueue (snd (createWorkerPool s)) = nextTickQueue s"
    "stops (snd (createWorkerPool s)) = stops s"
    "workerPoolCreated (snd (createWorkerPool s))"
    using f by (auto simp: createWorkerPool_def p split: completion.splits)
qed

lemma monitorEach_trace: "snd (monitorEach now es s) = s\<lparr>trace := trace (snd (monitorEach now es s))\<rparr>"
proof (induction es arbitrary: s)
  case Nil
  show ?case by simp
next
  case (Cons kw es)
  obtain k w where kw: "kw = (k, w)" by (cases kw)
  show ?case
  proof (cases "lastHeartbeat s k")
    case None
    then show ?thesis by (simp add: kw)
  next
    case (Some past)
    define s1 where "s1 = (if greaterEq (hrtimeToMilliseconds (hrtime_since now past))
          (heartbeatStallTolerance (settings s))
        then emit (emit s (WorkerStall k))
               (InfoWorkerHeartbeatDelta k (hrtimeToMilliseconds (hrtime_since now past)))
        else s)"
    have d: "monitorEach now (kw # es) s = monitorEach now es s1"
      by (simp add: kw Some s1_def Let_def)
    have a: "s1 = s\<lparr>trace := trace s1\<rparr>" by (simp add: s1_def emit_def)
    have b: "snd (monitorEach now es s1) = s1\<lparr>trace := trace (snd (monitorEach now es s1))\<rparr>"
      by (rule Cons.IH)
    have "snd (monitorEach now es s1) = s\<lparr>trace := trace (snd (monitorEach now es s1))\<rparr>"
      by (subst b, subst a) simp
    then show ?thesis by (simp add: d)
  qed
qed

lemmas monitorEach_frame = trace_frame [OF monitorEach_trace]

subsection \<open>What each method adds to the trace\<close>

lemma extends_refl: "extends P s s"
  by (simp add: extends_def)

lemma extends_same: "trace s' = trace s \<Longrightarrow> extends P s s'"
  by (simp add: extends_def)

lemma extends_trans: "extends P s s1 \<Longrightarrow> extends P s1 s2 \<Longrightarrow> extends P s s2"
  by (auto simp: extends_def)

lemma extends_mono: "extends P s s' \<Longrightarrow> (\<And>e. P e \<Longrightarrow> Q e) \<Longrightarrow> extends Q s s'"
  by (auto simp: extends_def)

lemma extends_filter:
  "extends P s s' \<Longrightarrow> (\<And>e. P e \<Longrightarrow> \<not> Q e) \<Longrightarrow> filter Q (trace s') = filter Q (trace s)"
  by (auto simp: extends_def)

lemma extends_append: "(\<forall>e\<in>set X. P e) \<Longrightarrow> trace s' = trace s @ X \<Longrightarrow> extends P s s'"
  by (auto simp: extends_def)

lemma replaceWorkerProcess_extends: "extends isFork s (snd (replaceWorkerProcess s k))"
  by (simp add: replaceWorkerProcess_eq extends_def split: option.splits)

lemma runTicks_extends: "extends isFork s (runTicks ks s)"
proof (induction ks arbitrary: s)
  case Nil
  show ?case by (simp add: extends_refl)
next
  case (Cons k ks)
  show ?case
    using extends_trans [OF replaceWorkerProcess_extends Cons.IH] by simp
qed

lemma ticks_extends: "extends isFork s (ticks s)"
  using runTicks_extends [of "s\<lparr>nextTickQueue := []\<rparr>" "nextTickQueue s"]
  by (simp add: ticks_def extends_def)

lemma createWorkers_extends: "extends isFork s (snd (createWorkers is s ps))"
proof (induction "is" arbitrary: s ps)
  case Nil
  show ?case by (simp add: extends_refl)
next
  case (Cons i "is")
  show ?case
  proof (cases "createWorkerProcess s (string_of_int i)")
    case (Pair c s1)
    have a: "extends isFork s s1"
      using Pair by (auto simp: createWorkerProcess_eq extends_def split: option.splits)
    show ?thesis
    proof (cases c)
      case (Throw e)
      with Pair a show ?thesis by simp
    next
      case (Normal p)
      define w where "w = connectWorkerProcessEvents \<lparr>worker_id = string_of_int i, state = Down, process = p\<rparr>"
      define s2 where "s2 = s1\<lparr>workers := AList.update (string_of_int i) w (workers s1)\<rparr>"
      have d: "createWorkers (i # is) s ps = createWorkers is s2 (ps @ [string_of_int i])"
        using Pair Normal by (simp add: s2_def w_def Let_def)
      have b: "extends isFork s s2" using a by (simp add: s2_def extends_def)
      show ?thesis unfolding d by (rule extends_trans [OF b Cons.IH])
    qed
  qed
qed

lemma start_extends: "extends isFork s (snd (start s))"
proof -
  have "extends isFork (s\<lparr>closing := False, workerPoolCreated := True\<rparr>)
     (snd (createWorkers (poolIds (workerCount (settings s))) (s\<lparr>closing := False, workerPoolCreated := True\<rparr>) []))"
    by (rule createWorkers_extends)
  then show ?thesis
    by (auto simp: start_def createWorkerPool_def extends_def split: prod.splits completion.splits)
qed

lemma monitorEach_extends: "extends isInfo s (snd (monitorEach now es s))"
proof (induction es arbitrary: s)
  case Nil
  show ?case by (simp add: extends_refl)
next
  case (Cons kw es)
  obtain k w where kw: "kw = (k, w)" by (cases kw)
  show ?case
  proof (cases "lastHeartbeat s k")
    case None
    then show ?thesis by (simp add: kw extends_refl)
  next
    case (Some past)
    define s1 where "s1 = (if greaterEq (hrtimeToMilliseconds (hrtime_since now past))
          (heartbeatStallTolerance (settings s))
        then emit (emit s (WorkerStall k))
               (InfoWorkerHeartbeatDelta k (hrtimeToMilliseconds (hrtime_since now past)))
        else s)"
    have d: "monitorEach now (kw # es) s = monitorEach now es s1"
      by (simp add: kw Some s1_def Let_def)
    have a: "extends isInfo s s1" by (simp add: s1_def emit_def extends_def)
    show ?thesis unfolding d by (rule extends_trans [OF a Cons.IH])
  qed
qed

lemma monitorHeartbeat_extends: "extends isInfo s (snd (monitorHeartbeat now s))"
  using monitorEach_extends [of s now "filter (\<lambda>(k, w). \<not> isDead w) (workers s)"]
  by (auto simp: monitorHeartbeat_def extends_def split: prod.splits completion.splits)

lemma monitorHeartbeat_timer:
  "snd (monitorHeartbeat now s) =
     s\<lparr>trace := trace (snd (monitorHeartbeat now s)),
       heartbeatTimeout := heartbeatTimeout (snd (monitorHeartbeat now s))\<rparr>"
proof -
  obtain c s1 where p: "monitorEach now (filter (\<lambda>(k, w). \<not> isDead w) (workers s)) s = (c, s1)"
    by (cases "monitorEach now (filter (\<lambda>(k, w). \<not> isDead w) (workers s)) s")
  have a: "s1 = s\<lparr>trace := trace s1\<rparr>"
    using monitorEach_trace [of now "filter (\<lambda>(k, w). \<not> isDead w) (workers s)" s] p by simp
  show ?thesis
  proof (cases c)
    case (Normal u)
    have m: "monitorHeartbeat now s =
        (Normal (), s1\<lparr>heartbeatTimeout := Some (Timeout (heartbeatMonitorInterval (settings s1)) False)\<rparr>)"
      by (simp add: monitorHeartbeat_def p Normal)
    have "s1\<lparr>heartbeatTimeout := Some (Timeout (heartbeatMonitorInterval (settings s1)) False)\<rparr> =
        (s\<lparr>trace := trace s1\<rparr>)\<lparr>heartbeatTimeout := Some (Timeout (heartbeatMonitorInterval (settings s1)) False)\<rparr>"
      by (rule arg_cong [OF a])
    then show ?thesis unfolding m by simp
  next
    case (Throw e)
    have m: "monitorHeartbeat now s = (Throw e, s1)"
      by (simp add: monitorHeartbeat_def p Throw)
    show ?thesis unfolding m using a by simp
  qed
qed

lemma monitorHeartbeat_frame:
  "configured (snd (monitorHeartbeat now s)) = configured s"
  "initializing (snd (monitorHeartbeat now s)) = initializing s"
  "workerPoolCreated (snd (monitorHeartbeat now s)) = workerPoolCreated s"
  "workers (snd (monitorHeartbeat now s)) = workers s"
  "settings (snd (monitorHeartbeat now s)) = settings s"
  "closing (snd (monitorHeartbeat now s)) = closing s"
  "heartbeatTimestamps (snd (monitorHeartbeat now s)) = heartbeatTimestamps s"
  "heartbeatStartedAt (snd (monitorHeartbeat now s)) = heartbeatStartedAt s"
  "nextPid (snd (monitorHeartbeat now s)) = nextPid s"
  "nextTickQueue (snd (monitorHeartbeat now s)) = nextTickQueue s"
  "allReady (snd (monitorHeartbeat now s)) = allReady s"
  "stops (snd (monitorHeartbeat now s)) = stops s"
  by (subst monitorHeartbeat_timer, simp)+

lemma settle_extends: "extends (\<lambda>e. isInfo e \<or> isKill e) s (fst (settle res s r))"
  by (auto simp: settle_def killSequence_def raceTo_def killProcesses_eq emit_def extends_def
        split: phase.splits signal.splits outcome.splits resolution.splits)

lemma drain_extends: "extends (\<lambda>e. isInfo e \<or> isKill e) s (fst (drain s r))"
proof (induction s r rule: drain.induct)
  case (1 s r)
  show ?case
  proof (cases "0 < rank (phase r) \<and> awaiting r = []")
    case True
    have "extends (\<lambda>e. isInfo e \<or> isKill e) (fst (settle (Fulfilled Resolved) s r))
       (fst (drain (fst (settle (Fulfilled Resolved) s r)) (snd (settle (Fulfilled Resolved) s r))))"
      using True by (intro "1.IH") simp_all
    from extends_trans [OF settle_extends this] show ?thesis
      using True by (simp add: drain_move)
  next
    case False
    then show ?thesis by (simp add: drain_idle extends_refl)
  qed
qed

subsection \<open>The chains of stop never move backwards\<close>

lemma laterRun_refl: "laterRun r r"
  by (simp add: laterRun_def)

lemma laterRun_trans: "laterRun r r1 \<Longrightarrow> laterRun r1 r2 \<Longrightarrow> laterRun r r2"
  by (auto simp: laterRun_def)

lemma advance_refl: "advance s s"
  by (simp add: advance_def laterRun_refl)

lemma advance_same: "stops s' = stops s \<Longrightarrow> advance s s'"
  by (simp add: advance_def laterRun_refl)

lemma advance_trans: "advance s s1 \<Longrightarrow> advance s1 s2 \<Longrightarrow> advance s s2"
  unfolding advance_def
  by (meson laterRun_trans le_trans less_le_trans)

lemma laterRun_settle: "laterRun r (snd (settle res s r))"
  by (cases "phase r" rule: rank.cases)
     (simp_all add: laterRun_def settle_phase)

lemma laterRun_drain: "laterRun r (snd (drain s r))"
proof (induction s r rule: drain.induct)
  case (1 s r)
  show ?case
  proof (cases "0 < rank (phase r) \<and> awaiting r = []")
    case True
    have "laterRun (snd (settle (Fulfilled Resolved) s r))
       (snd (drain (fst (settle (Fulfilled Resolved) s r)) (snd (settle (Fulfilled Resolved) s r))))"
      using True by (intro "1.IH") simp_all
    from laterRun_trans [OF laterRun_settle this] show ?thesis
      using True by (simp add: drain_move)
  next
    case False
    then show ?thesis by (simp add: drain_idle laterRun_refl)
  qed
qed

text \<open>What a state keeps when only its trace and the chains of \<open>stop\<close> change.\<close>

lemma chain_frame:
  assumes "x = s\<lparr>trace := t, stops := rs\<rparr>"
  shows "configured x = configured s" and "initializing x = initializing s"
    and "workerPoolCreated x = workerPoolCreated s" and "workers x = workers s"
    and "settings x = settings s"
    and "closing x = closing s" and "heartbeatTimestamps x = heartbeatTimestamps s"
    and "heartbeatTimeout x = heartbeatTimeout s" and "heartbeatStartedAt x = heartbeatStartedAt s"
    and "nextPid x = nextPid s"
    and "nextTickQueue x = nextTickQueue s" and "allReady x = allReady s"
  using assms by simp_all

lemma settleAt_eq:
  "settleAt n res s =
     (if n < length (stops s)
      then s\<lparr>trace := trace (fst (settle res s (stops s ! n))),
             stops := (stops s)[n := snd (settle res s (stops s ! n))]\<rparr>
      else s)"
proof (cases "n < length (stops s)")
  case True
  obtain s1 r where p: "settle res s (stops s ! n) = (s1, r)" by (cases "settle res s (stops s ! n)")
  have "s1 = s\<lparr>trace := trace s1\<rparr>" using settle_trace [of res s "stops s ! n"] p by simp
  then have "s1\<lparr>stops := (stops s1)[n := r]\<rparr> = s\<lparr>trace := trace s1, stops := (stops s)[n := r]\<rparr>"
    by (metis (no_types) supervisor.surjective supervisor.update_convs(10) supervisor.update_convs(14) supervisor.select_convs(14))
  then show ?thesis using True p by (simp add: settleAt_def)
next
  case False
  then show ?thesis by (simp add: settleAt_def)
qed


lemma drainAt_eq:
  "drainAt n s =
     (if n < length (stops s)
      then s\<lparr>trace := trace (fst (drain s (stops s ! n))),
             stops := (stops s)[n := snd (drain s (stops s ! n))]\<rparr>
      else s)"
proof (cases "n < length (stops s)")
  case True
  obtain s1 r where p: "drain s (stops s ! n) = (s1, r)" by (cases "drain s (stops s ! n)")
  have a: "s1 = s\<lparr>trace := trace s1\<rparr>" using drain_trace [of s "stops s ! n"] p by simp
  have "s1\<lparr>stops := (stops s1)[n := r]\<rparr> = (s\<lparr>trace := trace s1\<rparr>)\<lparr>stops := (stops s1)[n := r]\<rparr>"
    by (rule arg_cong [OF a])
  moreover have "stops s1 = stops s" using drain_frame(13) [of s "stops s ! n"] p by simp
  ultimately show ?thesis using True p by (simp add: drainAt_def)
next
  case False
  then show ?thesis by (simp add: drainAt_def)
qed

lemma drainAt_chain:
  "drainAt n s = s\<lparr>trace := trace (drainAt n s), stops := stops (drainAt n s)\<rparr>"
  by (simp add: drainAt_eq)

lemma settleAt_chain:
  "settleAt n res s = s\<lparr>trace := trace (settleAt n res s), stops := stops (settleAt n res s)\<rparr>"
  by (simp add: settleAt_eq)

lemmas settleAt_frame = chain_frame [OF settleAt_chain]

lemma fold_drainAt_chain:
  "fold drainAt ns s = s\<lparr>trace := trace (fold drainAt ns s), stops := stops (fold drainAt ns s)\<rparr>"
proof (induction ns arbitrary: s)
  case Nil
  show ?case by simp
next
  case (Cons n ns)
  define s1 where "s1 = drainAt n s"
  have a: "s1 = s\<lparr>trace := trace s1, stops := stops s1\<rparr>"
    unfolding s1_def by (rule drainAt_chain)
  have b: "fold drainAt ns s1 = s1\<lparr>trace := trace (fold drainAt ns s1), stops := stops (fold drainAt ns s1)\<rparr>"
    by (rule Cons.IH)
  have "s1\<lparr>trace := trace (fold drainAt ns s1), stops := stops (fold drainAt ns s1)\<rparr> =
      (s\<lparr>trace := trace s1, stops := stops s1\<rparr>)\<lparr>trace := trace (fold drainAt ns s1), stops := stops (fold drainAt ns s1)\<rparr>"
    by (rule arg_cong [OF a])
  with b have "fold drainAt ns s1 = s\<lparr>trace := trace (fold drainAt ns s1), stops := stops (fold drainAt ns s1)\<rparr>"
    by simp
  then show ?case by (simp add: s1_def)
qed

lemmas fold_drainAt_frame = chain_frame [OF fold_drainAt_chain]

lemma jobs_frame:
  "configured (jobs now s) = configured s" "initializing (jobs now s) = initializing s"
  "workerPoolCreated (jobs now s) = workerPoolCreated s" "workers (jobs now s) = workers s"
  "settings (jobs now s) = settings s" "closing (jobs now s) = closing s"
  "heartbeatTimestamps (jobs now s) = heartbeatTimestamps s"
  "nextPid (jobs now s) = nextPid s" "nextTickQueue (jobs now s) = nextTickQueue s"
  by (simp_all add: jobs_def fold_drainAt_frame allUp_def emit_def)

lemma advance_settleAt: "advance s (settleAt n res s)"
  by (auto simp: advance_def settleAt_eq nth_list_update laterRun_refl laterRun_settle)

lemma fire_chain: "fire n s = s\<lparr>trace := trace (fire n s), stops := stops (fire n s)\<rparr>"
  by (simp add: fire_def settleAt_eq)

lemmas fire_frame = chain_frame [OF fire_chain]

lemma advance_fire: "advance s (fire n s)"
proof -
  have "advance s (s\<lparr>stops := (stops s)[n := (stops s ! n)\<lparr>timer := None\<rparr>]\<rparr>)"
  proof -
    have "laterRun (stops s ! m) ((stops s)[n := (stops s ! n)\<lparr>timer := None\<rparr>] ! m)"
      if "m < length (stops s)" for m
      using that by (cases "m = n") (simp_all add: laterRun_def)
    then show ?thesis by (simp add: advance_def)
  qed
  from advance_trans [OF this advance_settleAt] show ?thesis
    by (simp add: fire_def advance_refl)
qed

lemma advance_drainAt: "advance s (drainAt n s)"
  by (auto simp: advance_def drainAt_eq nth_list_update laterRun_refl laterRun_drain)

lemma advance_fold_drainAt: "advance s (fold drainAt ns s)"
proof (induction ns arbitrary: s)
  case Nil
  show ?case by (simp add: advance_refl)
next
  case (Cons n ns)
  show ?case using advance_trans [OF advance_drainAt Cons.IH] by simp
qed

lemma advance_jobs: "advance s (jobs now s)"
proof -
  have "advance s (if allReady s = Joining [] then allUp now s else s)"
    by (simp add: advance_same allUp_def emit_def advance_refl)
  from advance_trans [OF this advance_fold_drainAt] show ?thesis
    by (simp add: jobs_def allUp_def emit_def)
qed

lemma advance_ticks: "advance s (ticks s)"
  by (rule advance_same) (simp add: ticks_frame)


lemma stop_eq:
  "stop s =
     s\<lparr>closing := True, trace := trace s @ broadcast s Shutdown,
       stops := stops s @
         [\<lparr>phase = GentleStop, awaiting = map fst (workers s),
           timer = Some (Timeout (gentleStopTimeout (settings s)) True)\<rparr>]\<rparr>"
  by (simp add: stop_def gentleStop_def internalSend_def broadcast_def)

lemma start_frame:
  "configured (snd (start s)) = configured s" "initializing (snd (start s)) = initializing s"
  "settings (snd (start s)) = settings s" "\<not> closing (snd (start s))"
  "heartbeatTimestamps (snd (start s)) = heartbeatTimestamps s"
  "heartbeatTimeout (snd (start s)) = heartbeatTimeout s"
  "heartbeatStartedAt (snd (start s)) = heartbeatStartedAt s"
  "nextTickQueue (snd (start s)) = nextTickQueue s" "stops (snd (start s)) = stops s"
  "workerPoolCreated (snd (start s))"
  by (simp_all add: start_def createWorkerPool_frame)

lemma exitDown_eq:
  "exitDown s k c sg =
     s\<lparr>workers := AList.map_entry k (\<lambda>w. w\<lparr>state := Down\<rparr>) (workers s),
       initializing := initializing s \<and>
         workerCount (settings s) \<noteq>
           Some (int (workersUp (s\<lparr>workers := AList.map_entry k (\<lambda>w. w\<lparr>state := Down\<rparr>) (workers s)\<rparr>))),
       trace := trace s @ Emit (WorkerDown k c sg) #
         announce (s\<lparr>workers := AList.map_entry k (\<lambda>w. w\<lparr>state := Down\<rparr>) (workers s)\<rparr>),
       stops := map (resolveDown k) (stops s)\<rparr>"
  by (simp add: exitDown_def workerEmitDown_eq)

lemma exitHandler_eq:
  "exitHandler s k c sg =
     s\<lparr>workers := AList.map_entry k (\<lambda>w. w\<lparr>state := Down\<rparr>) (workers s),
       initializing := initializing s \<and>
         workerCount (settings s) \<noteq>
           Some (int (workersUp (s\<lparr>workers := AList.map_entry k (\<lambda>w. w\<lparr>state := Down\<rparr>) (workers s)\<rparr>))),
       trace := trace s @ Emit (WorkerDown k c sg) #
         announce (s\<lparr>workers := AList.map_entry k (\<lambda>w. w\<lparr>state := Down\<rparr>) (workers s)\<rparr>) @
         (if c = Some 0 then [Emit (WorkerTerminated k)] else []),
       stops := map (resolveDown k) (stops s),
       nextTickQueue := nextTickQueue s @ (if c = Some 0 then [] else [k])\<rparr>"
  by (simp add: exitHandler_def exitBranch_def exitDown_eq emit_def)

lemma handler_Ready_eq:
  "workerInternalMessageHandler now s k Ready =
     s\<lparr>workers := AList.map_entry k (\<lambda>w. w\<lparr>state := Up\<rparr>) (workers s),
       initializing := initializing s \<and>
         workerCount (settings s) \<noteq>
           Some (int (workersUp (s\<lparr>workers := AList.map_entry k (\<lambda>w. w\<lparr>state := Up\<rparr>) (workers s)\<rparr>))),
       trace := trace s @ Emit (WorkerUp k) #
         announce (s\<lparr>workers := AList.map_entry k (\<lambda>w. w\<lparr>state := Up\<rparr>) (workers s)\<rparr>),
       allReady := resolveReady k (allReady s)\<rparr>"
  by (simp add: workerInternalMessageHandler_def workerEmitUp_eq)

lemma handler_Heartbeat_eq:
  "workerInternalMessageHandler now s k Heartbeat =
     s\<lparr>trace := trace s @ Emit (WorkerHeartbeat k) #
          (case lastHeartbeat s k of
             None \<Rightarrow> []
           | Some past \<Rightarrow> [Emit (InfoWorkerHeartbeatDelta k ((hrtime_ns now - hrtime_ns past) div 1000000))]),
       heartbeatTimestamps := (heartbeatTimestamps s)(k \<mapsto> now)\<rparr>"
  by (simp add: workerInternalMessageHandler_def recordHeartbeat_eq emit_def lastHeartbeat_def
        cong: option.case_cong)

lemma handler_Other_eq: "workerInternalMessageHandler now s k OtherMessage = s"
  by (simp add: workerInternalMessageHandler_def)

lemma advance_macrotask: "advance s (macrotask now i s)"
proof (cases i)
  case (Configure st b)
  then show ?thesis by (simp add: macrotask_def advance_same configure_frame)
next
  case Start
  then show ?thesis by (simp add: macrotask_def advance_same start_frame)
next
  case Stop
  then show ?thesis by (simp add: macrotask_def stop_eq advance_def nth_append laterRun_refl)
next
  case (Message k m)
  then show ?thesis
    by (cases m)
       (simp_all add: macrotask_def advance_same handler_Ready_eq handler_Heartbeat_eq
          handler_Other_eq advance_refl split: option.splits)
next
  case (Exit k c sg)
  have "advance x (exitHandler x k c sg)" for x
    by (simp add: exitHandler_eq advance_def laterRun_def resolveDown_def)
  then show ?thesis
    using Exit by (simp add: macrotask_def processExit_def advance_refl split: option.splits)
       (metis advance_def supervisor.select_convs(14) supervisor.surjective supervisor.update_convs(4))
next
  case MonitorTimer
  then show ?thesis
    by (simp add: macrotask_def advance_same monitorHeartbeat_frame advance_refl split: option.splits)
next
  case (RaceTimer n)
  then show ?thesis by (simp add: macrotask_def advance_fire)
qed

lemma advance_step: "advance s (step s ti)"
  unfolding step_def
  by (rule advance_trans [OF advance_macrotask advance_trans [OF advance_ticks advance_jobs]])


lemma rank_le_3: "rank ph \<le> 3"
  by (cases ph rule: rank.cases) simp_all

lemma rank_0: "rank ph = 0 \<Longrightarrow> \<exists>res. ph = Settled res"
  by (cases ph rule: rank.cases) simp_all

subsection \<open>The waits of stop and their timers\<close>

lemma settle_GentleStop:
  assumes "phase r = GentleStop"
  shows "settle res s r =
     (s\<lparr>trace := trace s @
          timeoutEvent res (InfoGentleStopTimeout (gentleStopTimeout (settings s))) @
          sweep s SIGTERM\<rparr>,
      \<lparr>phase = KillSweep SIGTERM, awaiting = map fst (live s),
        timer = Some (Timeout (killTimeout (settings s)) True)\<rparr>)"
  using assms
  by (simp add: settle_def raceTo_def killSequence_def killProcesses_eq emit_def
        timeoutEvent_def sweep_def live_def split: outcome.splits resolution.splits)

lemma settle_SIGTERM:
  assumes "phase r = KillSweep SIGTERM"
  shows "settle res s r =
     (s\<lparr>trace := trace s @
          timeoutEvent res (InfoKillTimeout SIGTERM (killTimeout (settings s))) @
          sweep s SIGKILL\<rparr>,
      \<lparr>phase = KillSweep SIGKILL, awaiting = map fst (live s),
        timer = Some (Timeout (killTimeout (settings s)) True)\<rparr>)"
  using assms
  by (simp add: settle_def raceTo_def killSequence_def killProcesses_eq emit_def
        timeoutEvent_def sweep_def live_def split: outcome.splits resolution.splits)

lemma settle_SIGKILL:
  assumes "phase r = KillSweep SIGKILL"
  shows "settle res s r =
     (s\<lparr>trace := trace s @
          timeoutEvent res (InfoKillTimeout SIGKILL (killTimeout (settings s)))\<rparr>,
      \<lparr>phase = Settled res, awaiting = [], timer = None\<rparr>)"
  using assms
  by (simp add: settle_def raceTo_def emit_def timeoutEvent_def
        split: outcome.splits resolution.splits)

lemma fire_armed:
  assumes "n < length (stops s)" and "timer (stops s ! n) \<noteq> None"
    and "0 < rank (phase (stops s ! n))"
  shows "fire n s =
     s\<lparr>trace := trace (fst (settle (Fulfilled PROMISE_TIMEOUT) s (stops s ! n))),
       stops := (stops s)[n := snd (settle (Fulfilled PROMISE_TIMEOUT) s (stops s ! n))]\<rparr>"
proof (cases "phase (stops s ! n)" rule: rank.cases)
  case 1
  then have "phase ((stops s ! n)\<lparr>timer := None\<rparr>) = GentleStop" by simp
  from settle_GentleStop [OF this] settle_GentleStop [OF 1] show ?thesis
    using assms by (simp add: fire_def settleAt_eq sweep_def live_def)
next
  case 2
  then have "phase ((stops s ! n)\<lparr>timer := None\<rparr>) = KillSweep SIGTERM" by simp
  from settle_SIGTERM [OF this] settle_SIGTERM [OF 2] show ?thesis
    using assms by (simp add: fire_def settleAt_eq sweep_def live_def)
next
  case 3
  then have "phase ((stops s ! n)\<lparr>timer := None\<rparr>) = KillSweep SIGKILL" by simp
  from settle_SIGKILL [OF this] settle_SIGKILL [OF 3] show ?thesis
    using assms by (simp add: fire_def settleAt_eq)
next
  case (4 res0)
  then show ?thesis using assms by simp
qed

lemma fire_unarmed: "n < length (stops s) \<Longrightarrow> timer (stops s ! n) = None \<Longrightarrow> fire n s = s"
  by (simp add: fire_def)

lemma timedRun_settle: "0 < rank (phase r) \<or> timedRun r \<Longrightarrow> timedRun (snd (settle res s r))"
  by (cases "phase r" rule: rank.cases)
     (simp_all add: settle_GentleStop settle_SIGTERM settle_SIGKILL settle_settled timedRun_def)

lemma timedRun_drain: "timedRun r \<Longrightarrow> timedRun (snd (drain s r))"
proof (induction s r rule: drain.induct)
  case (1 s r)
  show ?case
  proof (cases "0 < rank (phase r) \<and> awaiting r = []")
    case True
    have "timedRun (snd (settle (Fulfilled Resolved) s r))"
      using "1.prems" by (simp add: timedRun_settle)
    with True have "timedRun (snd (drain (fst (settle (Fulfilled Resolved) s r))
        (snd (settle (Fulfilled Resolved) s r))))"
      by (intro "1.IH") simp_all
    then show ?thesis using True by (simp add: drain_move)
  next
    case False
    then show ?thesis using "1.prems" by (simp add: drain_idle)
  qed
qed

lemma timed_update:
  assumes "timed s" and "timedRun r" and "stops s' = (stops s)[n := r]"
  shows "timed s'"
  using assms set_update_subset_insert [of "stops s" n r]
  by (auto simp: timed_def list_all_iff)

lemma timed_nth: "timed s \<Longrightarrow> n < length (stops s) \<Longrightarrow> timedRun (stops s ! n)"
  by (simp add: timed_def list_all_length)

lemma timed_same: "timed s \<Longrightarrow> stops s' = stops s \<Longrightarrow> timed s'"
  by (simp add: timed_def)

lemma timed_fire: "timed s \<Longrightarrow> timed (fire n s)"
proof (cases "n < length (stops s) \<and> timer (stops s ! n) \<noteq> None")
  case True
  assume t: "timed s"
  with True have "0 < rank (phase (stops s ! n))"
    using timed_nth [of s n] by (auto simp: timedRun_def)
  then have "timedRun (snd (settle (Fulfilled PROMISE_TIMEOUT) s (stops s ! n)))"
    by (simp add: timedRun_settle)
  with t show ?thesis
    by (rule timed_update) (simp add: fire_armed True \<open>0 < rank (phase (stops s ! n))\<close>)
next
  case False
  assume "timed s"
  with False show ?thesis by (auto simp: fire_def)
qed

lemma timed_drainAt: "timed s \<Longrightarrow> timed (drainAt n s)"
proof (cases "n < length (stops s)")
  case True
  assume t: "timed s"
  then have "timedRun (snd (drain s (stops s ! n)))"
    using True by (simp add: timedRun_drain timed_nth)
  with t show ?thesis by (rule timed_update) (simp add: drainAt_eq True)
next
  case False
  assume "timed s"
  with False show ?thesis by (simp add: drainAt_def)
qed

lemma timed_fold_drainAt: "timed s \<Longrightarrow> timed (fold drainAt ns s)"
  by (induction ns arbitrary: s) (simp_all add: timed_drainAt)

lemma timed_jobs: "timed s \<Longrightarrow> timed (jobs now s)"
proof -
  assume "timed s"
  then have "timed (if allReady s = Joining [] then allUp now s else s)"
    by (simp add: timed_def allUp_def emit_def)
  then show ?thesis unfolding jobs_def by (rule timed_fold_drainAt)
qed

lemma timedRun_resolveDown: "timedRun (resolveDown k r) = timedRun r"
  by (simp add: timedRun_def resolveDown_def)

lemma timed_exitHandler: "timed s \<Longrightarrow> timed (exitHandler s k c sg)"
  by (simp add: exitHandler_eq timed_def list_all_iff timedRun_resolveDown)

lemma timed_macrotask: "timed s \<Longrightarrow> timed (macrotask now i s)"
proof (cases i)
  case (Configure st b)
  assume "timed s"
  then show ?thesis using Configure by (simp add: macrotask_def timed_def configure_frame)
next
  case Start
  assume "timed s"
  then show ?thesis using Start by (simp add: macrotask_def timed_def start_frame)
next
  case Stop
  assume "timed s"
  then show ?thesis using Stop by (simp add: macrotask_def timed_def stop_eq timedRun_def)
next
  case (Message k m)
  assume "timed s"
  then show ?thesis
    using Message
    by (cases m)
       (simp_all add: macrotask_def timed_def handler_Ready_eq handler_Heartbeat_eq
          handler_Other_eq split: option.splits)
next
  case (Exit k c sg)
  assume t: "timed s"
  then have "timed (s\<lparr>workers := AList.map_entry k markExited (workers s)\<rparr>)"
    by (simp add: timed_def)
  then have "timed (exitHandler (s\<lparr>workers := AList.map_entry k markExited (workers s)\<rparr>) k c sg)"
    by (rule timed_exitHandler)
  with t show ?thesis
    using Exit by (simp add: macrotask_def processExit_def split: option.splits)
next
  case MonitorTimer
  assume "timed s"
  then show ?thesis
    using MonitorTimer
    by (simp add: macrotask_def timed_def monitorHeartbeat_frame split: option.splits)
next
  case (RaceTimer n)
  assume "timed s"
  then show ?thesis using RaceTimer by (simp add: macrotask_def timed_fire)
qed

lemma timed_step: "timed s \<Longrightarrow> timed (step s ti)"
  unfolding step_def
  by (intro timed_jobs timed_same [of "macrotask (fst ti) (snd ti) s" "ticks (macrotask (fst ti) (snd ti) s)"]
        timed_macrotask ticks_frame)

lemma timed_steps: "timed s \<Longrightarrow> timed (steps s tis)"
proof (induction tis arbitrary: s)
  case Nil
  then show ?case by (simp add: steps_def)
next
  case (Cons ti tis)
  from Cons.IH [OF timed_step [OF Cons.prems]] show ?case by (simp add: steps_def)
qed

lemma timed_constructor: "timed constructor"
  by (simp add: timed_def constructor_def)

lemma step_RaceTimer_rank:
  assumes "n < length (stops s)" and "timed s"
  shows "rank (phase (stops (step s (now, RaceTimer n)) ! n)) \<le> rank (phase (stops s ! n)) - 1"
proof (cases "0 < rank (phase (stops s ! n))")
  case True
  with assms have armed: "timer (stops s ! n) \<noteq> None"
    using timed_nth [of s n] by (auto simp: timedRun_def)
  define s1 where "s1 = macrotask now (RaceTimer n) s"
  have a: "n < length (stops s1)" and b: "rank (phase (stops s1 ! n)) = rank (phase (stops s ! n)) - 1"
    using assms(1) by (simp_all add: s1_def macrotask_def fire_armed armed True settle_phase rank_nextPhase)
  have "advance s1 (jobs now (ticks s1))"
    by (rule advance_trans [OF advance_ticks advance_jobs])
  with a have "rank (phase (stops (jobs now (ticks s1)) ! n)) \<le> rank (phase (stops s1 ! n))"
    by (simp add: advance_def laterRun_def)
  with b show ?thesis by (simp add: step_def s1_def)
next
  case False
  have "advance s (step s (now, RaceTimer n))" by (rule advance_step)
  with assms(1) have "rank (phase (stops (step s (now, RaceTimer n)) ! n)) \<le> rank (phase (stops s ! n))"
    by (simp add: advance_def laterRun_def)
  with False show ?thesis by simp
qed

lemma steps_rank:
  assumes "n < length (stops s)" and "timed s"
  shows "n < length (stops (steps s tis)) \<and>
         rank (phase (stops (steps s tis) ! n)) \<le>
           rank (phase (stops s ! n)) - length (filter (\<lambda>ti. snd ti = RaceTimer n) tis)"
  using assms
proof (induction tis arbitrary: s)
  case Nil
  then show ?case by (simp add: steps_def)
next
  case (Cons ti tis)
  define s1 where "s1 = step s ti"
  have adv: "advance s s1" unfolding s1_def by (rule advance_step)
  have t1: "timed s1" unfolding s1_def by (rule timed_step [OF Cons.prems(2)])
  from adv Cons.prems have n1: "n < length (stops s1)"
    and le: "rank (phase (stops s1 ! n)) \<le> rank (phase (stops s ! n))"
    by (simp_all add: advance_def laterRun_def)
  have strict: "rank (phase (stops s1 ! n)) \<le> rank (phase (stops s ! n)) - 1" if "snd ti = RaceTimer n"
  proof -
    from that have "ti = (fst ti, RaceTimer n)" by (simp add: prod_eq_iff)
    then show ?thesis
      using step_RaceTimer_rank [OF Cons.prems, of "fst ti"] by (simp add: s1_def)
  qed
  from Cons.IH [OF n1 t1] have ih: "n < length (stops (steps s1 tis))"
    and r: "rank (phase (stops (steps s1 tis) ! n)) \<le>
            rank (phase (stops s1 ! n)) - length (filter (\<lambda>ti. snd ti = RaceTimer n) tis)"
    by simp_all
  have st: "steps s (ti # tis) = steps s1 tis" by (simp add: steps_def s1_def)
  show ?case
  proof (cases "snd ti = RaceTimer n")
    case True
    with strict r ih show ?thesis unfolding st by simp
  next
    case False
    with le r ih show ?thesis unfolding st by simp
  qed
qed

text \<open>The event loop left to itself comes to rest.\<close>

lemma weight_settle: "weight (snd (settle res s r)) \<le> weight r"
  by (cases "phase r" rule: rank.cases)
     (simp_all add: settle_GentleStop settle_SIGTERM settle_SIGKILL settle_settled weight_def)

lemma weight_settle_fired:
  "timer r \<noteq> None \<Longrightarrow> weight (snd (settle res s (r\<lparr>timer := None\<rparr>))) < weight r"
  by (cases "phase r" rule: rank.cases)
     (simp_all add: settle_GentleStop settle_SIGTERM settle_SIGKILL settle_settled weight_def)

lemma weight_drain: "weight (snd (drain s r)) \<le> weight r"
proof (induction s r rule: drain.induct)
  case (1 s r)
  show ?case
  proof (cases "0 < rank (phase r) \<and> awaiting r = []")
    case True
    have "weight (snd (drain (fst (settle (Fulfilled Resolved) s r))
        (snd (settle (Fulfilled Resolved) s r)))) \<le> weight (snd (settle (Fulfilled Resolved) s r))"
      using True by (intro "1.IH") simp_all
    from le_trans [OF this weight_settle] show ?thesis
      using True by (simp add: drain_move)
  next
    case False
    then show ?thesis by (simp add: drain_idle)
  qed
qed

lemma load_update:
  assumes "n < length (stops s)" and "stops s' = (stops s)[n := r]"
  shows "weight r \<le> weight (stops s ! n) \<Longrightarrow> load s' \<le> load s"
    and "weight r < weight (stops s ! n) \<Longrightarrow> load s' < load s"
proof -
  have m: "weight (stops s ! n) \<le> sum_list (map weight (stops s))"
    using assms(1) by (intro member_le_sum_list) simp_all
  have e: "load s' = sum_list (map weight (stops s)) + weight r - weight (stops s ! n)"
    using assms by (simp add: load_def map_update sum_list_update)
  show "weight r \<le> weight (stops s ! n) \<Longrightarrow> load s' \<le> load s"
    using m e by (simp add: load_def)
  show "weight r < weight (stops s ! n) \<Longrightarrow> load s' < load s"
    using m e by (simp add: load_def)
qed

lemma load_fire:
  assumes "n < length (stops s)" and "timer (stops s ! n) \<noteq> None"
  shows "load (fire n s) < load s"
proof (rule load_update(2) [OF assms(1)])
  show "stops (fire n s) =
      (stops s)[n := snd (settle (Fulfilled PROMISE_TIMEOUT)
        (s\<lparr>stops := (stops s)[n := (stops s ! n)\<lparr>timer := None\<rparr>]\<rparr>) ((stops s ! n)\<lparr>timer := None\<rparr>))]"
    using assms by (simp add: fire_def settleAt_eq)
  show "weight (snd (settle (Fulfilled PROMISE_TIMEOUT)
        (s\<lparr>stops := (stops s)[n := (stops s ! n)\<lparr>timer := None\<rparr>]\<rparr>) ((stops s ! n)\<lparr>timer := None\<rparr>)))
      < weight (stops s ! n)"
    using assms(2) by (rule weight_settle_fired)
qed

lemma load_drainAt: "load (drainAt n s) \<le> load s"
proof (cases "n < length (stops s)")
  case True
  show ?thesis
    by (rule load_update(1) [OF True, of _ "snd (drain s (stops s ! n))"])
       (simp_all add: drainAt_eq True weight_drain)
next
  case False
  then show ?thesis by (simp add: drainAt_def)
qed

lemma load_fold_drainAt: "load (fold drainAt ns s) \<le> load s"
proof (induction ns arbitrary: s)
  case Nil
  show ?case by simp
next
  case (Cons n ns)
  from le_trans [OF Cons.IH load_drainAt] show ?case by simp
qed

lemma load_jobs: "load (jobs now s) \<le> load s"
proof -
  have "load (if allReady s = Joining [] then allUp now s else s) = load s"
    by (simp add: load_def allUp_def emit_def)
  with load_fold_drainAt [of "[0..<length (stops s)]" "if allReady s = Joining [] then allUp now s else s"]
  show ?thesis by (simp add: jobs_def)
qed

lemma load_step_fire:
  assumes "n < length (stops s)" and "timer (stops s ! n) \<noteq> None"
  shows "load (step s (now, RaceTimer n)) < load s"
proof -
  have "load (ticks (fire n s)) = load (fire n s)" by (simp add: load_def ticks_frame)
  with load_jobs [of now "ticks (fire n s)"] load_fire [OF assms]
  show ?thesis by (simp add: step_def macrotask_def)
qed

lemma armedChain_Some:
  "armedChain s = Some n \<Longrightarrow> n < length (stops s) \<and> timer (stops s ! n) \<noteq> None"
  by (auto simp: armedChain_def find_Some_iff)

lemma armedChain_None: "armedChain s = None \<Longrightarrow> list_all (\<lambda>r. timer r = None) (stops s)"
  by (simp add: armedChain_def find_None_iff list_all_length)

termination runTimers
proof (relation "measure (\<lambda>(now, s). load s)")
  show "wf (measure (\<lambda>(now, s). load s))" by simp
next
  fix now s n
  assume "armedChain s = Some n"
  then have "load (step s (now, RaceTimer n)) < load s"
    by (intro load_step_fire) (simp_all add: armedChain_Some)
  then show "((now, step s (now, RaceTimer n)), (now, s)) \<in> measure (\<lambda>(now, s). load s)"
    by simp
qed

declare runTimers.simps [simp del]

lemma runTimers_rest: "list_all (\<lambda>r. timer r = None) (stops (runTimers now s))"
proof (induction now s rule: runTimers.induct)
  case (1 now s)
  show ?case
  proof (cases "armedChain s")
    case None
    then show ?thesis by (subst runTimers.simps) (simp add: armedChain_None)
  next
    case (Some n)
    from "1.IH" [OF Some] show ?thesis by (subst runTimers.simps) (simp add: Some)
  qed
qed

lemma timed_runTimers: "timed s \<Longrightarrow> timed (runTimers now s)"
proof (induction now s rule: runTimers.induct)
  case (1 now s)
  show ?case
  proof (cases "armedChain s")
    case None
    then show ?thesis using "1.prems" by (subst runTimers.simps) simp
  next
    case (Some n)
    from "1.IH" [OF Some timed_step [OF "1.prems"]] show ?thesis
      by (subst runTimers.simps) (simp add: Some)
  qed
qed

lemma advance_runTimers: "advance s (runTimers now s)"
proof (induction now s rule: runTimers.induct)
  case (1 now s)
  show ?case
  proof (cases "armedChain s")
    case None
    then show ?thesis by (subst runTimers.simps) (simp add: advance_refl)
  next
    case (Some n)
    from advance_trans [OF advance_step "1.IH" [OF Some]] show ?thesis
      by (subst runTimers.simps) (simp add: Some)
  qed
qed

lemma runTimers_settled:
  assumes "timed s"
  shows "list_all (\<lambda>r. \<exists>res. phase r = Settled res) (stops (runTimers now s))"
proof -
  have "timedRun r \<Longrightarrow> timer r = None \<Longrightarrow> \<exists>res. phase r = Settled res" for r
    by (simp add: timedRun_def rank_0)
  with timed_runTimers [OF assms, of now] runTimers_rest [of now s] show ?thesis
    by (auto simp: timed_def list_all_iff)
qed

lemma steps_settled:
  assumes "n < length (stops s)" and "phase (stops s ! n) = Settled res"
  shows "phase (stops (steps s tis) ! n) = Settled res"
  using assms
proof (induction tis arbitrary: s)
  case Nil
  then show ?case by (simp add: steps_def)
next
  case (Cons ti tis)
  have "advance s (step s ti)" by (rule advance_step)
  with Cons.prems have "n < length (stops (step s ti))" and "phase (stops (step s ti) ! n) = Settled res"
    by (auto simp: advance_def laterRun_def)
  from Cons.IH [OF this] show ?case by (simp add: steps_def)
qed

subsection \<open>The pool of one worker\<close>

lemma pool1_workers:
  "workers (pool 1) =
     [(''1'', \<lparr>worker_id = ''1'', state = Up,
              process = \<lparr>pid = 0, exited = False, exitListener = True\<rparr>\<rparr>)]"
  by code_simp

lemma pool1_monitoring:
  "heartbeatStartedAt (pool 1) = Some (0, 0) \<and>
   heartbeatTimeout (pool 1) = Some (Timeout (Some 1000) False) \<and>
   heartbeatTimestamps (pool 1) ''1'' = None \<and>
   heartbeatStallTolerance (settings (pool 1)) = Some 5000"
  by code_simp

lemma pool1_idle:
  "nextTickQueue (pool 1) = [] \<and> stops (pool 1) = [] \<and> allReady (pool 1) = Joined \<and>
   \<not> closing (pool 1) \<and> \<not> initializing (pool 1)"
  by code_simp

lemma pool1_trace:
  "trace (pool 1) =
     [Fork 0 None None [(''POOL_HALL_ID'', ''1''), (''POOL_HALL_HEARTBEAT_INTERVAL'', ''500'')] [],
      Emit (WorkerUp ''1''), Emit (InfoWorkersUpCount 1 (Some 1) (Some 1)),
      Send ''1'' 0 Healthy, Emit WorkerAllUp]"
  by code_simp

lemma pool1_elapsed: "elapsed t (pool 1) ''1'' = hrtime_ns t div 1000000"
  using pool1_monitoring by (simp add: elapsed_def lastHeartbeat_def hrtime_ns_def)

lemma warming_facts:
  "initializing warming \<and> workersUp warming = 2 \<and> workerCount (settings warming) = Some 2 \<and>
   minWorkerCount (settings warming) = Some 2 \<and>
   broadcast warming Healthy = [Send ''1'' 0 Healthy, Send ''2'' 1 Healthy]"
  by code_simp

lemma degraded_facts:
  "\<not> initializing degraded \<and> workerCount (settings degraded) = Some 4 \<and>
   minWorkerCount (settings degraded) = Some 2 \<and> workersUp degraded = 3 \<and>
   broadcast degraded Healthy =
     [Send ''1'' 0 Healthy, Send ''2'' 1 Healthy, Send ''3'' 2 Healthy, Send ''4'' 3 Healthy]"
  by code_simp

lemma pool4_crash:
  "listening (pool 4) ''3'' \<and> statusWhen (pool 4) ''3'' Down = Healthy \<and>
   statusWhen (pool 4) ''3'' Up = Healthy \<and>
   broadcast (pool 4) Healthy =
     [Send ''1'' 0 Healthy, Send ''2'' 1 Healthy, Send ''3'' 2 Healthy, Send ''4'' 3 Healthy] \<and>
   filter healthEffect (trace (pool 4)) =
     [Emit (WorkerUp ''1''), Send ''1'' 0 Unhealthy, Send ''2'' 1 Unhealthy, Send ''3'' 2 Unhealthy,
      Send ''4'' 3 Unhealthy,
      Emit (WorkerUp ''2''), Send ''1'' 0 Unhealthy, Send ''2'' 1 Unhealthy, Send ''3'' 2 Unhealthy,
      Send ''4'' 3 Unhealthy,
      Emit (WorkerUp ''3''), Send ''1'' 0 Unhealthy, Send ''2'' 1 Unhealthy, Send ''3'' 2 Unhealthy,
      Send ''4'' 3 Unhealthy,
      Emit (WorkerUp ''4''), Send ''1'' 0 Healthy, Send ''2'' 1 Healthy, Send ''3'' 2 Healthy,
      Send ''4'' 3 Healthy]"
  by code_simp

lemma pool4_roster:
  "workerPoolCreated (pool 4) \<and>
   roster (pool 4) = [(''1'', ''1''), (''2'', ''2''), (''3'', ''3''), (''4'', ''4'')]"
  by code_simp


subsection \<open>configure\<close>

lemma configure_twice:
  "configured s \<Longrightarrow> configure s st b = (Throw AlreadyConfigured, s)"
  by (simp add: configure_def)

lemma configure_missing_workerCount:
  "\<not> configured s \<Longrightarrow> workerCount st = None \<Longrightarrow>
   configure s st b = (Throw (MissingSetting ''workerCount''), s\<lparr>configured := True\<rparr>)"
  by (simp add: configure_def)

lemma configure_missing_workerEnv:
  "\<not> configured s \<Longrightarrow> workerCount st = Some n \<Longrightarrow> workerEnv st = None \<Longrightarrow>
   configure s st b = (Throw (MissingSetting ''workerEnv''), s\<lparr>configured := True\<rparr>)"
  by (simp add: configure_def)

lemma configure_configured: "configured (snd (configure s st b))"
  by (simp add: configure_def Let_def)

text \<open>
  C5. When configure succeeds, the \<open>minWorkerCount\<close> of the settings it stores is the one
  supplied (by the settings, or else by the base settings merged under them) and, when
  none is supplied, \<open>workerCount - 2\<close> for a \<open>workerCount\<close> of at least 4 and \<open>workerCount\<close>
  otherwise. configure succeeds on every supervisor not yet configured whose settings
  have \<open>workerCount\<close> and \<open>workerEnv\<close>.
\<close>

theorem configure_minWorkerCount:
  assumes "\<not> configured s" and "workerCount st = Some n" and "workerEnv st = Some f"
  shows "fst (configure s st b) = Normal () \<and>
         workerCount (settings (snd (configure s st b))) = Some n \<and>
         minWorkerCount (settings (snd (configure s st b))) =
           (case minWorkerCount st of
              Some m \<Rightarrow> Some m
            | None \<Rightarrow>
                (case minWorkerCount b of
                   Some m \<Rightarrow> Some m
                 | None \<Rightarrow> Some (if n \<ge> 4 then n - 2 else n)))"
  using assms
  by (simp add: configure_def Let_def spread_def derivedMin_def DEFAULT_SETTINGS_def
        no_settings_def split: option.splits)

theorem configure_minWorkerCount_witness:
  "\<not> configured constructor \<and>
   minWorkerCount (settings (snd (configure constructor (poolSettings 6) no_settings))) = Some 4 \<and>
   minWorkerCount (settings (snd (configure constructor (poolSettings 3) no_settings))) = Some 3 \<and>
   minWorkerCount (settings (snd (configure constructor
      ((poolSettings 6)\<lparr>minWorkerCount := Some 5\<rparr>) no_settings))) = Some 5"
  using configure_minWorkerCount [of constructor "poolSettings 6" 6 "\<lambda>i. []" no_settings]
    configure_minWorkerCount [of constructor "poolSettings 3" 3 "\<lambda>i. []" no_settings]
    configure_minWorkerCount [of constructor "(poolSettings 6)\<lparr>minWorkerCount := Some 5\<rparr>" 6
      "\<lambda>i. []" no_settings]
  by (simp add: constructor_def poolSettings_def no_settings_def)

text \<open>
  C4. A second configure throws and leaves the supervisor as it was. A configure without
  \<open>workerCount\<close> throws too, but after line 76 has set \<open>configured\<close>: the failed call changes
  the supervisor, and a later call with complete settings is refused as a second one.
\<close>

theorem configure_missing_marks_configured:
  "fst (configure constructor (no_settings\<lparr>workerEnv := Some (\<lambda>i. [])\<rparr>) no_settings)
     = Throw (MissingSetting ''workerCount'') \<and>
   snd (configure constructor (no_settings\<lparr>workerEnv := Some (\<lambda>i. [])\<rparr>) no_settings)
     = constructor\<lparr>configured := True\<rparr> \<and>
   snd (configure constructor (no_settings\<lparr>workerEnv := Some (\<lambda>i. [])\<rparr>) no_settings)
     \<noteq> constructor \<and>
   fst (configure
          (snd (configure constructor (no_settings\<lparr>workerEnv := Some (\<lambda>i. [])\<rparr>) no_settings))
          (poolSettings 2) no_settings)
     = Throw AlreadyConfigured"
proof -
  have c: "\<not> configured constructor" by (simp add: constructor_def)
  have m: "workerCount (no_settings\<lparr>workerEnv := Some (\<lambda>i. [])\<rparr>) = None"
    by (simp add: no_settings_def)
  have d: "constructor\<lparr>configured := True\<rparr> \<noteq> constructor"
  proof
    assume "constructor\<lparr>configured := True\<rparr> = constructor"
    then have "configured (constructor\<lparr>configured := True\<rparr>) = configured constructor" by simp
    then show False by (simp add: constructor_def)
  qed
  show ?thesis
    using d by (simp add: configure_missing_workerCount [OF c m] configure_twice)
qed

subsection \<open>The heartbeat monitor\<close>

lemma lastHeartbeat_emit [simp]: "lastHeartbeat (emit s e) k = lastHeartbeat s k"
  by (simp add: lastHeartbeat_def emit_def split: option.splits)

lemma lastHeartbeat_trace [simp]: "lastHeartbeat (s\<lparr>trace := tr\<rparr>) k = lastHeartbeat s k"
  by (simp add: lastHeartbeat_def split: option.splits)

lemma elapsed_trace [simp]: "elapsed now (s\<lparr>trace := tr\<rparr>) k = elapsed now s k"
  by (simp add: elapsed_def)

lemma stallEvents_trace [simp]: "stallEvents now (s\<lparr>trace := tr\<rparr>) kw = stallEvents now s kw"
  by (simp add: stallEvents_def)

lemma monitorEach_started:
  assumes "heartbeatStartedAt s = Some b"
  shows "monitorEach now es s =
    (Normal (), s\<lparr>trace := trace s @ concat (map (\<lambda>(k, w). stallEvents now s k) es)\<rparr>)"
  using assms
proof (induction es arbitrary: s)
  case Nil
  then show ?case by simp
next
  case (Cons kw es)
  obtain k w where kw: "kw = (k, w)" by (cases kw)
  from Cons.prems obtain past where p: "lastHeartbeat s k = Some past"
    by (cases "heartbeatTimestamps s k") (auto simp: lastHeartbeat_def)
  define s1 where "s1 = s\<lparr>trace := trace s @ stallEvents now s k\<rparr>"
  have step: "monitorEach now (kw # es) s = monitorEach now es s1"
    by (simp add: kw p s1_def emit_def stallEvents_def elapsed_def ms_since Let_def)
  have "heartbeatStartedAt s1 = Some b"
    using Cons.prems by (simp add: s1_def)
  from Cons.IH [OF this] show ?case
    unfolding step by (simp add: s1_def kw)
qed


lemma monitorHeartbeat_started:
  assumes "heartbeatStartedAt s = Some b"
  shows "monitorHeartbeat now s =
    (Normal (),
     s\<lparr>trace := trace s @
          concat (map (\<lambda>(k, w). stallEvents now s k) (filter (\<lambda>(k, w). \<not> isDead w) (workers s))),
       heartbeatTimeout := Some (Timeout (heartbeatMonitorInterval (settings s)) False)\<rparr>)"
  by (simp add: monitorHeartbeat_def monitorEach_started [OF assms])

lemma ticks_idle: "nextTickQueue s = [] \<Longrightarrow> ticks s = s"
  by (simp add: ticks_def)

lemma jobs_idle: "stops s = [] \<Longrightarrow> allReady s \<noteq> Joining [] \<Longrightarrow> jobs now s = s"
  by (simp add: jobs_def)

lemma step_MonitorTimer_idle:
  assumes "heartbeatStartedAt s = Some b" and "heartbeatTimeout s = Some h"
    and "nextTickQueue s = []" and "stops s = []" and "allReady s \<noteq> Joining []"
  shows "step s (now, MonitorTimer) =
    s\<lparr>trace := trace s @
          concat (map (\<lambda>(k, w). stallEvents now s k) (filter (\<lambda>(k, w). \<not> isDead w) (workers s))),
       heartbeatTimeout := Some (Timeout (heartbeatMonitorInterval (settings s)) False)\<rparr>"
  using assms
  by (simp add: step_def macrotask_def monitorHeartbeat_started [OF assms(1)] ticks_idle jobs_idle)

lemma count_stallEvents:
  assumes "distinct (map fst ws)" and "map_of ws k = Some w"
  shows "count_list (concat (map (\<lambda>(k, w). stallEvents now s k) (filter (\<lambda>(k, w). \<not> isDead w) ws)))
           (Emit (WorkerStall k)) =
         (if \<not> isDead w \<and> greaterEq (elapsed now s k) (heartbeatStallTolerance (settings s))
          then 1 else 0)"
  using assms
proof (induction ws)
  case Nil
  then show ?case by simp
next
  case (Cons kw ws)
  obtain k' w' where kw: "kw = (k', w')" by (cases kw)
  show ?case
  proof (cases "k' = k")
    case True
    with Cons.prems kw have w: "w' = w" and notin: "k \<notin> fst ` set ws" by auto
    have "map_of ws k = None" using notin by (simp add: map_of_eq_None_iff)
    have rest: "count_list (concat (map (\<lambda>(k, w). stallEvents now s k)
        (filter (\<lambda>(k, w). \<not> isDead w) ws))) (Emit (WorkerStall k)) = 0"
      using notin by (induction ws) (auto simp: stallEvents_def)
    show ?thesis using rest by (simp add: kw True w stallEvents_def)
  next
    case False
    with Cons.prems kw have "distinct (map fst ws)" and "map_of ws k = Some w" by auto
    from Cons.IH [OF this] show ?thesis using False by (simp add: kw stallEvents_def)
  qed
qed

lemma monitor_ticks_count:
  assumes "heartbeatStartedAt s = Some b" and "heartbeatTimeout s = Some h"
    and "nextTickQueue s = []" and "stops s = []" and "allReady s \<noteq> Joining []"
    and "distinct (map fst (workers s))" and "map_of (workers s) k = Some w" and "\<not> isDead w"
  shows "count_list (trace (steps s (map (\<lambda>t. (t, MonitorTimer)) ts))) (Emit (WorkerStall k)) =
         count_list (trace s) (Emit (WorkerStall k)) +
         length (filter (\<lambda>t. greaterEq (elapsed t s k) (heartbeatStallTolerance (settings s))) ts)"
  using assms
proof (induction ts arbitrary: s h)
  case Nil
  then show ?case by (simp add: steps_def)
next
  case (Cons t ts)
  define s1 where "s1 = step s (t, MonitorTimer)"
  have s1: "s1 = s\<lparr>trace := trace s @
          concat (map (\<lambda>(k, w). stallEvents t s k) (filter (\<lambda>(k, w). \<not> isDead w) (workers s))),
       heartbeatTimeout := Some (Timeout (heartbeatMonitorInterval (settings s)) False)\<rparr>"
    unfolding s1_def using Cons.prems(1-5) by (rule step_MonitorTimer_idle)
  have el: "\<And>t'. elapsed t' s1 k = elapsed t' s k"
    by (simp add: s1 elapsed_def lastHeartbeat_def cong: option.case_cong)
  have "count_list (trace (steps s1 (map (\<lambda>t. (t, MonitorTimer)) ts))) (Emit (WorkerStall k)) =
         count_list (trace s1) (Emit (WorkerStall k)) +
         length (filter (\<lambda>t. greaterEq (elapsed t s1 k) (heartbeatStallTolerance (settings s1))) ts)"
    using Cons.prems by (intro Cons.IH) (simp_all add: s1)
  moreover have "count_list (trace s1) (Emit (WorkerStall k)) =
      count_list (trace s) (Emit (WorkerStall k)) +
      (if greaterEq (elapsed t s k) (heartbeatStallTolerance (settings s)) then 1 else 0)"
    using count_stallEvents [OF Cons.prems(6,7), of t s] Cons.prems(8) by (simp add: s1)
  moreover have "settings s1 = settings s" by (simp add: s1)
  ultimately show ?case
    by (simp add: steps_def s1_def [symmetric] el)
qed


text \<open>
  C7, as the code has it. Once the monitoring has started, a monitor tick emits, for every
  worker that is not dead and whose elapsed milliseconds have reached
  \<open>heartbeatStallTolerance\<close>, one \<^verbatim>\<open>workerStall\<close> event and one delta event; it re-arms its
  timer and changes nothing else: no signal, no launch, no worker touched. The ticks do
  not remember that a stall was reported: over a run of ticks with no heartbeat in
  between, the number of \<^verbatim>\<open>workerStall\<close> events for a live worker is the number of those
  ticks at which the elapsed time has reached the tolerance.
\<close>

theorem monitorHeartbeat_stalls:
  assumes "heartbeatStartedAt s = Some b" and "heartbeatStallTolerance (settings s) = Some tol"
  shows "monitorHeartbeat now s =
      (Normal (),
       s\<lparr>trace := trace s @
            concat (map (\<lambda>(k, w). stallEvents now s k)
                      (filter (\<lambda>(k, w). \<not> isDead w) (workers s))),
         heartbeatTimeout := Some (Timeout (heartbeatMonitorInterval (settings s)) False)\<rparr>) \<and>
    stallEvents now s k =
      (if tol \<le> int (elapsed now s k)
       then [Emit (WorkerStall k), Emit (InfoWorkerHeartbeatDelta k (elapsed now s k))]
       else []) \<and>
    (heartbeatTimeout s \<noteq> None \<and> nextTickQueue s = [] \<and> stops s = [] \<and>
     allReady s \<noteq> Joining [] \<and> distinct (map fst (workers s)) \<and>
     map_of (workers s) k = Some w \<and> \<not> isDead w \<longrightarrow>
       count_list (trace (steps s (map (\<lambda>t. (t, MonitorTimer)) ts))) (Emit (WorkerStall k)) =
       count_list (trace s) (Emit (WorkerStall k)) +
       length (filter (\<lambda>t. tol \<le> int (elapsed t s k)) ts))"
proof (intro conjI impI)
  show "monitorHeartbeat now s =
      (Normal (),
       s\<lparr>trace := trace s @
            concat (map (\<lambda>(k, w). stallEvents now s k)
                      (filter (\<lambda>(k, w). \<not> isDead w) (workers s))),
         heartbeatTimeout := Some (Timeout (heartbeatMonitorInterval (settings s)) False)\<rparr>)"
    using assms(1) by (rule monitorHeartbeat_started)
  show "stallEvents now s k =
      (if tol \<le> int (elapsed now s k)
       then [Emit (WorkerStall k), Emit (InfoWorkerHeartbeatDelta k (elapsed now s k))]
       else [])"
    using assms(2) by (simp add: stallEvents_def greaterEq_def)
next
  assume q: "heartbeatTimeout s \<noteq> None \<and> nextTickQueue s = [] \<and> stops s = [] \<and>
     allReady s \<noteq> Joining [] \<and> distinct (map fst (workers s)) \<and>
     map_of (workers s) k = Some w \<and> \<not> isDead w"
  then obtain h where h: "heartbeatTimeout s = Some h" by auto
  have "count_list (trace (steps s (map (\<lambda>t. (t, MonitorTimer)) ts))) (Emit (WorkerStall k)) =
       count_list (trace s) (Emit (WorkerStall k)) +
       length (filter (\<lambda>t. greaterEq (elapsed t s k) (heartbeatStallTolerance (settings s))) ts)"
    using assms(1) h q
    by (intro monitor_ticks_count [where w = w and b = b and h = h]) simp_all
  then show "count_list (trace (steps s (map (\<lambda>t. (t, MonitorTimer)) ts))) (Emit (WorkerStall k)) =
       count_list (trace s) (Emit (WorkerStall k)) +
       length (filter (\<lambda>t. tol \<le> int (elapsed t s k)) ts)"
    using assms(2) by (simp add: greaterEq_def)
qed

theorem monitorHeartbeat_stalls_witness:
  "heartbeatStartedAt (pool 1) = Some (0, 0) \<and>
   heartbeatStallTolerance (settings (pool 1)) = Some 5000 \<and>
   stallEvents (4, 999000000) (pool 1) ''1'' = [] \<and>
   stallEvents (5, 2000000) (pool 1) ''1'' =
     [Emit (WorkerStall ''1''), Emit (InfoWorkerHeartbeatDelta ''1'' 5002)] \<and>
   count_list (trace (steps (pool 1)
       [((1, 1000000), MonitorTimer), ((2, 2000000), MonitorTimer), ((3, 3000000), MonitorTimer),
        ((4, 4000000), MonitorTimer), ((5, 5000000), MonitorTimer)]))
     (Emit (WorkerStall ''1'')) = 1"
proof -
  have a: "heartbeatStartedAt (pool 1) = Some (0, 0)"
    and b: "heartbeatStallTolerance (settings (pool 1)) = Some 5000"
    using pool1_monitoring by simp_all
  note th = monitorHeartbeat_stalls [OF a b, where k = "''1''" and
      w = "\<lparr>worker_id = ''1'', state = Up,
              process = \<lparr>pid = 0, exited = False, exitListener = True\<rparr>\<rparr>"]
  have q: "heartbeatTimeout (pool 1) \<noteq> None \<and> nextTickQueue (pool 1) = [] \<and>
     stops (pool 1) = [] \<and> allReady (pool 1) \<noteq> Joining [] \<and>
     distinct (map fst (workers (pool 1))) \<and>
     map_of (workers (pool 1)) ''1'' = Some \<lparr>worker_id = ''1'', state = Up,
              process = \<lparr>pid = 0, exited = False, exitListener = True\<rparr>\<rparr> \<and>
     \<not> isDead \<lparr>worker_id = ''1'', state = Up,
              process = \<lparr>pid = 0, exited = False, exitListener = True\<rparr>\<rparr>"
    using pool1_monitoring pool1_idle by (simp add: pool1_workers isDead_def)
  have c: "count_list (trace (steps (pool 1) (map (\<lambda>t. (t, MonitorTimer))
       [(1, 1000000), (2, 2000000), (3, 3000000), (4, 4000000), (5, 5000000)])))
     (Emit (WorkerStall ''1'')) = 1"
    using th [of "(0, 0)" "[(1, 1000000), (2, 2000000), (3, 3000000), (4, 4000000), (5, 5000000)]"] q
    by (simp add: pool1_trace pool1_elapsed hrtime_ns_def)
  have d: "stallEvents (4, 999000000) (pool 1) ''1'' = []"
    using th [of "(4, 999000000)" "[]"] by (simp add: pool1_elapsed hrtime_ns_def)
  have e: "stallEvents (5, 2000000) (pool 1) ''1'' =
     [Emit (WorkerStall ''1''), Emit (InfoWorkerHeartbeatDelta ''1'' 5002)]"
    using th [of "(5, 2000000)" "[]"] by (simp add: pool1_elapsed hrtime_ns_def)
  from a b c d e show ?thesis by simp
qed

text \<open>
  The scenario of C7 with the ticks on the second: the baseline is the start of the
  monitoring, the only worker never sends a heartbeat, and the monitor runs at 1000,
  2000, ..., 6000 ms. The ticks at 5000 and at 6000 ms both report the stall.
\<close>

theorem stall_twice:
  "count_list (trace (steps (pool 1)
      [((1, 0), MonitorTimer), ((2, 0), MonitorTimer), ((3, 0), MonitorTimer),
       ((4, 0), MonitorTimer), ((5, 0), MonitorTimer), ((6, 0), MonitorTimer)]))
     (Emit (WorkerStall ''1'')) = 2"
proof -
  have "count_list (trace (steps (pool 1) (map (\<lambda>t. (t, MonitorTimer))
          [(1, 0), (2, 0), (3, 0), (4, 0), (5, 0), (6, 0)]))) (Emit (WorkerStall ''1'')) =
        count_list (trace (pool 1)) (Emit (WorkerStall ''1'')) +
        length (filter (\<lambda>t. greaterEq (elapsed t (pool 1) ''1'')
                  (heartbeatStallTolerance (settings (pool 1))))
          [(1, 0), (2, 0), (3, 0), (4, 0), (5, 0), (6, 0)])"
    using pool1_monitoring pool1_idle
    by (intro monitor_ticks_count [where b = "(0, 0)" and h = "Timeout (Some 1000) False"
          and w = "\<lparr>worker_id = ''1'', state = Up,
              process = \<lparr>pid = 0, exited = False, exitListener = True\<rparr>\<rparr>"])
       (simp_all add: pool1_workers isDead_def)
  then show ?thesis
    using pool1_monitoring
    by (simp add: pool1_trace pool1_elapsed greaterEq_def hrtime_ns_def)
qed

subsection \<open>Heartbeat records\<close>






subsection \<open>stop\<close>

lemma stopping_facts:
  "stops stopping =
     [\<lparr>phase = GentleStop, awaiting = [''1''], timer = Some (Timeout (Some 5000) True)\<rparr>] \<and>
   trace stopping = trace (pool 1) @ [Send ''1'' 0 Shutdown] \<and>
   gentleStopTimeout (settings stopping) = Some 5000 \<and> killTimeout (settings stopping) = Some 2000 \<and>
   map fst (live stopping) = [''1''] \<and>
   sweep stopping SIGTERM = [Emit (InfoLiveWorkersAtKill SIGTERM 1), Kill 0 SIGTERM] \<and>
   sweep stopping SIGKILL = [Emit (InfoLiveWorkersAtKill SIGKILL 1), Kill 0 SIGKILL]"
  by code_simp

lemma stopping_run:
  "stops (steps stopping [((6, 0), RaceTimer 0), ((8, 0), RaceTimer 0), ((10, 0), RaceTimer 0)]) =
     [\<lparr>phase = Settled (Fulfilled PROMISE_TIMEOUT), awaiting = [], timer = None\<rparr>] \<and>
   trace (steps stopping [((6, 0), RaceTimer 0), ((8, 0), RaceTimer 0), ((10, 0), RaceTimer 0)]) =
     trace (pool 1) @
     [Send ''1'' 0 Shutdown,
      Emit (InfoGentleStopTimeout (Some 5000)),
      Emit (InfoLiveWorkersAtKill SIGTERM 1), Kill 0 SIGTERM,
      Emit (InfoKillTimeout SIGTERM (Some 2000)),
      Emit (InfoLiveWorkersAtKill SIGKILL 1), Kill 0 SIGKILL,
      Emit (InfoKillTimeout SIGKILL (Some 2000))] \<and>
   workers (steps stopping [((6, 0), RaceTimer 0), ((8, 0), RaceTimer 0), ((10, 0), RaceTimer 0)]) =
     [(''1'', \<lparr>worker_id = ''1'', state = Up,
              process = \<lparr>pid = 0, exited = False, exitListener = True\<rparr>\<rparr>)] \<and>
   stops (runTimers (6, 0) stopping) =
     [\<lparr>phase = Settled (Fulfilled PROMISE_TIMEOUT), awaiting = [], timer = None\<rparr>] \<and>
   trace (runTimers (6, 0) stopping) =
     trace (steps stopping [((6, 0), RaceTimer 0), ((8, 0), RaceTimer 0), ((10, 0), RaceTimer 0)])"
  by code_simp

text \<open>
  C3. The promise \<open>stop\<close> returns always settles. \<open>stop\<close> begins the first wait and arms
  its timer with \<open>gentleStopTimeout\<close>. When the race of a wait settles, with the sentinel
  of the timer, with the awaited promise or with a rejection, the next step of the chain
  runs all the same: after the first wait the sweep with SIGTERM and after the second the
  sweep with SIGKILL, each of which emits its diagnostic event, signals the process of
  every worker that is alive, and begins a wait for these workers with a timer of
  \<open>killTimeout\<close> of its own; after the third wait the chain is settled with the outcome of
  that race. A timeout adds the event of the wait that timed out. The firing of an armed
  timer in the event loop is such a step of its chain, and a timer that is not armed
  does nothing. In every state the event loop
  reaches, a chain that is not settled holds an armed timer. Hence a chain is settled as
  soon as its timers have fired three times, in every run of the event loop; and the
  event loop left to itself, firing the timers that are armed, comes to rest with every
  chain settled, whether or not a worker is still alive. This holds for a chain that
  exists and for the chain a call of \<open>stop\<close> creates, and a settled chain stays settled
  with its outcome.
\<close>

theorem stop_settles:
  "stop s =
     s\<lparr>closing := True, trace := trace s @ broadcast s Shutdown,
       stops := stops s @
         [\<lparr>phase = GentleStop, awaiting = map fst (workers s),
           timer = Some (Timeout (gentleStopTimeout (settings s)) True)\<rparr>]\<rparr> \<and>
   (phase r = GentleStop \<longrightarrow>
      settle res s r =
        (s\<lparr>trace := trace s @
             timeoutEvent res (InfoGentleStopTimeout (gentleStopTimeout (settings s))) @
             sweep s SIGTERM\<rparr>,
         \<lparr>phase = KillSweep SIGTERM, awaiting = map fst (live s),
           timer = Some (Timeout (killTimeout (settings s)) True)\<rparr>)) \<and>
   (phase r = KillSweep SIGTERM \<longrightarrow>
      settle res s r =
        (s\<lparr>trace := trace s @
             timeoutEvent res (InfoKillTimeout SIGTERM (killTimeout (settings s))) @
             sweep s SIGKILL\<rparr>,
         \<lparr>phase = KillSweep SIGKILL, awaiting = map fst (live s),
           timer = Some (Timeout (killTimeout (settings s)) True)\<rparr>)) \<and>
   (phase r = KillSweep SIGKILL \<longrightarrow>
      settle res s r =
        (s\<lparr>trace := trace s @
             timeoutEvent res (InfoKillTimeout SIGKILL (killTimeout (settings s)))\<rparr>,
         \<lparr>phase = Settled res, awaiting = [], timer = None\<rparr>)) \<and>
   (n < length (stops s) \<and> timer (stops s ! n) \<noteq> None \<and> 0 < rank (phase (stops s ! n)) \<longrightarrow>
      macrotask now (RaceTimer n) s =
        s\<lparr>trace := trace (fst (settle (Fulfilled PROMISE_TIMEOUT) s (stops s ! n))),
          stops := (stops s)[n := snd (settle (Fulfilled PROMISE_TIMEOUT) s (stops s ! n))]\<rparr>) \<and>
   (n < length (stops s) \<and> timer (stops s ! n) = None \<longrightarrow>
      macrotask now (RaceTimer n) s = s) \<and>
   timed (steps constructor before) \<and>
   (timed s \<longrightarrow> timed (steps s tis)) \<and>
   (timed s \<and> n < length (stops s) \<and> 3 \<le> length (filter (\<lambda>ti. snd ti = RaceTimer n) tis) \<longrightarrow>
      (\<exists>res. phase (stops (steps s tis) ! n) = Settled res)) \<and>
   (timed s \<and> 3 \<le> length (filter (\<lambda>ti. snd ti = RaceTimer (length (stops s))) tis) \<longrightarrow>
      (\<exists>res. phase (stops (steps s ((now, Stop) # tis)) ! length (stops s)) = Settled res)) \<and>
   (timed s \<and> n < length (stops s) \<longrightarrow>
      (\<exists>res. phase (stops (runTimers now s) ! n) = Settled res)) \<and>
   (timed s \<longrightarrow>
      (\<exists>res. phase (stops (runTimers now' (step s (now, Stop))) ! length (stops s)) = Settled res)) \<and>
   (n < length (stops s) \<and> phase (stops s ! n) = Settled out \<longrightarrow>
      phase (stops (steps s tis) ! n) = Settled out)"
proof (intro conjI impI)
  show "stop s =
     s\<lparr>closing := True, trace := trace s @ broadcast s Shutdown,
       stops := stops s @
         [\<lparr>phase = GentleStop, awaiting = map fst (workers s),
           timer = Some (Timeout (gentleStopTimeout (settings s)) True)\<rparr>]\<rparr>"
    by (rule stop_eq)
next
  assume "phase r = GentleStop"
  then show "settle res s r =
        (s\<lparr>trace := trace s @
             timeoutEvent res (InfoGentleStopTimeout (gentleStopTimeout (settings s))) @
             sweep s SIGTERM\<rparr>,
         \<lparr>phase = KillSweep SIGTERM, awaiting = map fst (live s),
           timer = Some (Timeout (killTimeout (settings s)) True)\<rparr>)"
    by (rule settle_GentleStop)
next
  assume "phase r = KillSweep SIGTERM"
  then show "settle res s r =
        (s\<lparr>trace := trace s @
             timeoutEvent res (InfoKillTimeout SIGTERM (killTimeout (settings s))) @
             sweep s SIGKILL\<rparr>,
         \<lparr>phase = KillSweep SIGKILL, awaiting = map fst (live s),
           timer = Some (Timeout (killTimeout (settings s)) True)\<rparr>)"
    by (rule settle_SIGTERM)
next
  assume "phase r = KillSweep SIGKILL"
  then show "settle res s r =
        (s\<lparr>trace := trace s @
             timeoutEvent res (InfoKillTimeout SIGKILL (killTimeout (settings s)))\<rparr>,
         \<lparr>phase = Settled res, awaiting = [], timer = None\<rparr>)"
    by (rule settle_SIGKILL)
next
  assume "n < length (stops s) \<and> timer (stops s ! n) \<noteq> None \<and> 0 < rank (phase (stops s ! n))"
  then show "macrotask now (RaceTimer n) s =
        s\<lparr>trace := trace (fst (settle (Fulfilled PROMISE_TIMEOUT) s (stops s ! n))),
          stops := (stops s)[n := snd (settle (Fulfilled PROMISE_TIMEOUT) s (stops s ! n))]\<rparr>"
    by (simp add: macrotask_def fire_armed)
next
  assume "n < length (stops s) \<and> timer (stops s ! n) = None"
  then show "macrotask now (RaceTimer n) s = s" by (simp add: macrotask_def fire_unarmed)
next
  show "timed (steps constructor before)" by (rule timed_steps [OF timed_constructor])
next
  assume "timed s"
  then show "timed (steps s tis)" by (rule timed_steps)
next
  assume a: "timed s \<and> n < length (stops s) \<and> 3 \<le> length (filter (\<lambda>ti. snd ti = RaceTimer n) tis)"
  then have "rank (phase (stops (steps s tis) ! n)) \<le>
      rank (phase (stops s ! n)) - length (filter (\<lambda>ti. snd ti = RaceTimer n) tis)"
    using steps_rank [of n s tis] by simp
  with a rank_le_3 [of "phase (stops s ! n)"]
  have "rank (phase (stops (steps s tis) ! n)) = 0" by simp
  then show "\<exists>res. phase (stops (steps s tis) ! n) = Settled res" by (rule rank_0)
next
  assume a: "timed s \<and> 3 \<le> length (filter (\<lambda>ti. snd ti = RaceTimer (length (stops s))) tis)"
  define s1 where "s1 = step s (now, Stop)"
  have "advance (stop s) s1"
    unfolding s1_def step_def
    by (simp add: macrotask_def advance_trans [OF advance_ticks advance_jobs])
  then have n1: "length (stops s) < length (stops s1)" by (simp add: advance_def stop_eq)
  have t1: "timed s1" unfolding s1_def using a by (simp add: timed_step)
  have "rank (phase (stops (steps s1 tis) ! length (stops s))) \<le>
      rank (phase (stops s1 ! length (stops s))) -
        length (filter (\<lambda>ti. snd ti = RaceTimer (length (stops s))) tis)"
    using steps_rank [OF n1 t1, of tis] by simp
  with a rank_le_3 [of "phase (stops s1 ! length (stops s))"]
  have "rank (phase (stops (steps s1 tis) ! length (stops s))) = 0" by simp
  then have "\<exists>res. phase (stops (steps s1 tis) ! length (stops s)) = Settled res" by (rule rank_0)
  then show "\<exists>res. phase (stops (steps s ((now, Stop) # tis)) ! length (stops s)) = Settled res"
    by (simp add: steps_def s1_def)
next
  assume a: "timed s \<and> n < length (stops s)"
  have "advance s (runTimers now s)" by (rule advance_runTimers)
  with a have "n < length (stops (runTimers now s))" by (simp add: advance_def)
  with runTimers_settled [of s now] a
  show "\<exists>res. phase (stops (runTimers now s) ! n) = Settled res"
    by (simp add: list_all_length)
next
  assume a: "timed s"
  define s1 where "s1 = step s (now, Stop)"
  have "advance (stop s) s1"
    unfolding s1_def step_def
    by (simp add: macrotask_def advance_trans [OF advance_ticks advance_jobs])
  then have n1: "length (stops s) < length (stops s1)" by (simp add: advance_def stop_eq)
  have t1: "timed s1" unfolding s1_def using a by (simp add: timed_step)
  have "advance s1 (runTimers now' s1)" by (rule advance_runTimers)
  with n1 have "length (stops s) < length (stops (runTimers now' s1))" by (simp add: advance_def)
  with runTimers_settled [OF t1, of now']
  show "\<exists>res. phase (stops (runTimers now' (step s (now, Stop))) ! length (stops s)) = Settled res"
    by (simp add: list_all_length s1_def)
next
  assume "n < length (stops s) \<and> phase (stops s ! n) = Settled out"
  then show "phase (stops (steps s tis) ! n) = Settled out" by (simp add: steps_settled)
qed


theorem stop_settles_witness:
  "timed (pool 1) \<and> stops (pool 1) = [] \<and>
   stops stopping =
     [\<lparr>phase = GentleStop, awaiting = [''1''], timer = Some (Timeout (Some 5000) True)\<rparr>] \<and>
   trace stopping = trace (pool 1) @ [Send ''1'' 0 Shutdown] \<and>
   settle (Rejected TypeError) stopping
       \<lparr>phase = GentleStop, awaiting = [''1''], timer = Some (Timeout (Some 5000) True)\<rparr> =
     (stopping\<lparr>trace := trace (pool 1) @
         [Send ''1'' 0 Shutdown, Emit (InfoLiveWorkersAtKill SIGTERM 1), Kill 0 SIGTERM]\<rparr>,
      \<lparr>phase = KillSweep SIGTERM, awaiting = [''1''], timer = Some (Timeout (Some 2000) True)\<rparr>) \<and>
   settle (Fulfilled Resolved) stopping
       \<lparr>phase = KillSweep SIGTERM, awaiting = [], timer = Some (Timeout (Some 2000) True)\<rparr> =
     (stopping\<lparr>trace := trace (pool 1) @
         [Send ''1'' 0 Shutdown, Emit (InfoLiveWorkersAtKill SIGKILL 1), Kill 0 SIGKILL]\<rparr>,
      \<lparr>phase = KillSweep SIGKILL, awaiting = [''1''], timer = Some (Timeout (Some 2000) True)\<rparr>) \<and>
   settle (Fulfilled PROMISE_TIMEOUT) stopping
       \<lparr>phase = KillSweep SIGKILL, awaiting = [''1''], timer = Some (Timeout (Some 2000) True)\<rparr> =
     (stopping\<lparr>trace := trace (pool 1) @
         [Send ''1'' 0 Shutdown, Emit (InfoKillTimeout SIGKILL (Some 2000))]\<rparr>,
      \<lparr>phase = Settled (Fulfilled PROMISE_TIMEOUT), awaiting = [], timer = None\<rparr>) \<and>
   macrotask (6, 0) (RaceTimer 0) stopping =
     stopping\<lparr>trace := trace (pool 1) @
         [Send ''1'' 0 Shutdown, Emit (InfoGentleStopTimeout (Some 5000)),
          Emit (InfoLiveWorkersAtKill SIGTERM 1), Kill 0 SIGTERM],
       stops := [\<lparr>phase = KillSweep SIGTERM, awaiting = [''1''],
                  timer = Some (Timeout (Some 2000) True)\<rparr>]\<rparr> \<and>
   stops (steps stopping [((6, 0), RaceTimer 0), ((8, 0), RaceTimer 0), ((10, 0), RaceTimer 0)]) =
     [\<lparr>phase = Settled (Fulfilled PROMISE_TIMEOUT), awaiting = [], timer = None\<rparr>] \<and>
   trace (steps stopping [((6, 0), RaceTimer 0), ((8, 0), RaceTimer 0), ((10, 0), RaceTimer 0)]) =
     trace (pool 1) @
     [Send ''1'' 0 Shutdown,
      Emit (InfoGentleStopTimeout (Some 5000)),
      Emit (InfoLiveWorkersAtKill SIGTERM 1), Kill 0 SIGTERM,
      Emit (InfoKillTimeout SIGTERM (Some 2000)),
      Emit (InfoLiveWorkersAtKill SIGKILL 1), Kill 0 SIGKILL,
      Emit (InfoKillTimeout SIGKILL (Some 2000))] \<and>
   workers (steps stopping [((6, 0), RaceTimer 0), ((8, 0), RaceTimer 0), ((10, 0), RaceTimer 0)]) =
     [(''1'', \<lparr>worker_id = ''1'', state = Up,
              process = \<lparr>pid = 0, exited = False, exitListener = True\<rparr>\<rparr>)] \<and>
   stops (runTimers (6, 0) stopping) =
     [\<lparr>phase = Settled (Fulfilled PROMISE_TIMEOUT), awaiting = [], timer = None\<rparr>] \<and>
   trace (runTimers (6, 0) stopping) =
     trace (steps stopping [((6, 0), RaceTimer 0), ((8, 0), RaceTimer 0), ((10, 0), RaceTimer 0)]) \<and>
   phase (stops (steps (runTimers (6, 0) stopping) [((20, 0), Stop), ((30, 0), RaceTimer 0)]) ! 0) =
     Settled (Fulfilled PROMISE_TIMEOUT) \<and>
   macrotask (12, 0) (RaceTimer 0) (runTimers (6, 0) stopping) = runTimers (6, 0) stopping"
proof -
  have z: "stops (pool 1) = []" using pool1_idle by simp
  have t: "timed (pool 1)"
    using stop_settles [where before = "[((0, 0), Configure (poolSettings 1) no_settings), ((0, 0), Start)] @
        map (\<lambda>i. ((0, 0), Message (string_of_int i) Ready)) [1..1]"]
    unfolding pool_def by simp
  have ts: "timed stopping"
    using stop_settles [where s = "pool 1" and tis = "[((1, 0), Stop)]"] t
    by (simp add: stopping_def steps_def)
  have 1: "settle (Rejected TypeError) stopping
       \<lparr>phase = GentleStop, awaiting = [''1''], timer = Some (Timeout (Some 5000) True)\<rparr> =
     (stopping\<lparr>trace := trace (pool 1) @
         [Send ''1'' 0 Shutdown, Emit (InfoLiveWorkersAtKill SIGTERM 1), Kill 0 SIGTERM]\<rparr>,
      \<lparr>phase = KillSweep SIGTERM, awaiting = [''1''], timer = Some (Timeout (Some 2000) True)\<rparr>)"
    using stop_settles [where s = stopping and res = "Rejected TypeError" and
        r = "\<lparr>phase = GentleStop, awaiting = [''1''], timer = Some (Timeout (Some 5000) True)\<rparr>"]
      stopping_facts
    by (simp add: timeoutEvent_def)
  have 2: "settle (Fulfilled Resolved) stopping
       \<lparr>phase = KillSweep SIGTERM, awaiting = [], timer = Some (Timeout (Some 2000) True)\<rparr> =
     (stopping\<lparr>trace := trace (pool 1) @
         [Send ''1'' 0 Shutdown, Emit (InfoLiveWorkersAtKill SIGKILL 1), Kill 0 SIGKILL]\<rparr>,
      \<lparr>phase = KillSweep SIGKILL, awaiting = [''1''], timer = Some (Timeout (Some 2000) True)\<rparr>)"
    using stop_settles [where s = stopping and res = "Fulfilled Resolved" and
        r = "\<lparr>phase = KillSweep SIGTERM, awaiting = [], timer = Some (Timeout (Some 2000) True)\<rparr>"]
      stopping_facts
    by (simp add: timeoutEvent_def)
  have 3: "settle (Fulfilled PROMISE_TIMEOUT) stopping
       \<lparr>phase = KillSweep SIGKILL, awaiting = [''1''], timer = Some (Timeout (Some 2000) True)\<rparr> =
     (stopping\<lparr>trace := trace (pool 1) @
         [Send ''1'' 0 Shutdown, Emit (InfoKillTimeout SIGKILL (Some 2000))]\<rparr>,
      \<lparr>phase = Settled (Fulfilled PROMISE_TIMEOUT), awaiting = [], timer = None\<rparr>)"
    using stop_settles [where s = stopping and res = "Fulfilled PROMISE_TIMEOUT" and
        r = "\<lparr>phase = KillSweep SIGKILL, awaiting = [''1''], timer = Some (Timeout (Some 2000) True)\<rparr>"]
      stopping_facts
    by (simp add: timeoutEvent_def)
  have 4: "macrotask (6, 0) (RaceTimer 0) stopping =
     stopping\<lparr>trace := trace (pool 1) @
         [Send ''1'' 0 Shutdown, Emit (InfoGentleStopTimeout (Some 5000)),
          Emit (InfoLiveWorkersAtKill SIGTERM 1), Kill 0 SIGTERM],
       stops := [\<lparr>phase = KillSweep SIGTERM, awaiting = [''1''],
                  timer = Some (Timeout (Some 2000) True)\<rparr>]\<rparr>"
    using stop_settles [where s = stopping and n = 0 and now = "(6, 0)" and
        res = "Fulfilled PROMISE_TIMEOUT" and
        r = "\<lparr>phase = GentleStop, awaiting = [''1''], timer = Some (Timeout (Some 5000) True)\<rparr>"]
      stopping_facts
    by (simp add: timeoutEvent_def)
  have 5: "\<exists>res. phase (stops (steps stopping
      [((6, 0), RaceTimer 0), ((8, 0), RaceTimer 0), ((10, 0), RaceTimer 0)]) ! 0) = Settled res"
    using stop_settles [where s = stopping and n = 0 and
        tis = "[((6, 0), RaceTimer 0), ((8, 0), RaceTimer 0), ((10, 0), RaceTimer 0)]"] ts stopping_facts
    by simp
  have 6: "\<exists>res. phase (stops (steps (pool 1)
      (((1, 0), Stop) # [((6, 0), RaceTimer 0), ((8, 0), RaceTimer 0), ((10, 0), RaceTimer 0)])) !
        length (stops (pool 1))) = Settled res"
    using stop_settles [where s = "pool 1" and now = "(1, 0)" and
        tis = "[((6, 0), RaceTimer 0), ((8, 0), RaceTimer 0), ((10, 0), RaceTimer 0)]"] t
    by (simp add: z)
  have 7: "\<exists>res. phase (stops (runTimers (6, 0) stopping) ! 0) = Settled res"
    using stop_settles [where s = stopping and n = 0 and now = "(6, 0)"] ts stopping_facts
    by simp
  have 8: "\<exists>res. phase (stops (runTimers (6, 0) (step (pool 1) ((1, 0), Stop))) !
        length (stops (pool 1))) = Settled res"
    using stop_settles [where s = "pool 1" and now = "(1, 0)" and now' = "(6, 0)"] t
    by simp
  have 9: "phase (stops (steps (runTimers (6, 0) stopping) [((20, 0), Stop), ((30, 0), RaceTimer 0)]) ! 0) =
     Settled (Fulfilled PROMISE_TIMEOUT)"
    using stop_settles [where s = "runTimers (6, 0) stopping" and n = 0 and
        out = "Fulfilled PROMISE_TIMEOUT" and
        tis = "[((20, 0), Stop), ((30, 0), RaceTimer 0)]"] stopping_run
    by simp
  have 10: "macrotask (12, 0) (RaceTimer 0) (runTimers (6, 0) stopping) = runTimers (6, 0) stopping"
    using stop_settles [where s = "runTimers (6, 0) stopping" and n = 0 and now = "(12, 0)"]
      stopping_run
    by simp
  from z t 1 2 3 4 5 6 7 8 9 10 stopping_facts stopping_run show ?thesis by simp
qed

subsection \<open>Pool health\<close>

lemma initializing_macrotask: "initializing (macrotask now i s) \<Longrightarrow> initializing s"
proof (cases i)
  case (Message k m)
  assume "initializing (macrotask now i s)"
  with Message show ?thesis
    by (cases m)
       (auto simp: macrotask_def handler_Ready_eq handler_Heartbeat_eq handler_Other_eq
          split: option.splits)
next
  case (Exit k c sg)
  assume "initializing (macrotask now i s)"
  with Exit show ?thesis
    by (auto simp: macrotask_def processExit_def exitHandler_eq split: option.splits if_splits)
qed (auto simp: macrotask_def configure_frame start_frame stop_eq monitorHeartbeat_frame
       fire_frame split: option.splits)

lemma initializing_step: "\<not> initializing s \<Longrightarrow> \<not> initializing (step s ti)"
  using initializing_macrotask [of "fst ti" "snd ti" s]
  by (auto simp: step_def jobs_frame ticks_frame)

lemma initializing_steps: "\<not> initializing s \<Longrightarrow> \<not> initializing (steps s tis)"
  unfolding steps_def
  by (induction tis arbitrary: s) (simp_all add: initializing_step)

text \<open>
  C1. While \<open>initializing\<close> is true, setPoolHealth broadcasts \<open>healthy\<close> exactly when the
  number of workers in state up equals \<open>workerCount\<close>, and then sets \<open>initializing\<close> to
  false; otherwise it broadcasts \<open>unhealthy\<close> and \<open>initializing\<close> stays true. Once
  \<open>initializing\<close> is false it broadcasts \<open>healthy\<close> exactly when the number is at least
  \<open>minWorkerCount\<close>. It changes nothing else. No turn of the event loop sets
  \<open>initializing\<close> back to true.
\<close>

theorem setPoolHealth_policy:
  "(initializing s \<longrightarrow>
      setPoolHealth s =
        s\<lparr>initializing := workerCount (settings s) \<noteq> Some (int (workersUp s)),
          trace := trace s @
            Emit (InfoWorkersUpCount (workersUp s) (workerCount (settings s))
                    (minWorkerCount (settings s))) #
            broadcast s (if workerCount (settings s) = Some (int (workersUp s))
                         then Healthy else Unhealthy)\<rparr>) \<and>
   (\<not> initializing s \<longrightarrow>
      setPoolHealth s =
        s\<lparr>trace := trace s @
            Emit (InfoWorkersUpCount (workersUp s) (workerCount (settings s))
                    (minWorkerCount (settings s))) #
            broadcast s (if \<exists>m. minWorkerCount (settings s) = Some m \<and> m \<le> int (workersUp s)
                         then Healthy else Unhealthy)\<rparr>) \<and>
   (\<not> initializing s \<longrightarrow> \<not> initializing (steps s tis))"
proof (intro conjI impI)
  assume "initializing s"
  then show "setPoolHealth s =
        s\<lparr>initializing := workerCount (settings s) \<noteq> Some (int (workersUp s)),
          trace := trace s @
            Emit (InfoWorkersUpCount (workersUp s) (workerCount (settings s))
                    (minWorkerCount (settings s))) #
            broadcast s (if workerCount (settings s) = Some (int (workersUp s))
                         then Healthy else Unhealthy)\<rparr>"
    by (simp add: setPoolHealth_eq announce_def poolStatus_def)
next
  assume "\<not> initializing s"
  then show "setPoolHealth s =
        s\<lparr>trace := trace s @
            Emit (InfoWorkersUpCount (workersUp s) (workerCount (settings s))
                    (minWorkerCount (settings s))) #
            broadcast s (if \<exists>m. minWorkerCount (settings s) = Some m \<and> m \<le> int (workersUp s)
                         then Healthy else Unhealthy)\<rparr>"
    by (cases "minWorkerCount (settings s)") (simp_all add: setPoolHealth_eq announce_def poolStatus_def)
next
  assume "\<not> initializing s"
  then show "\<not> initializing (steps s tis)" by (rule initializing_steps)
qed


theorem setPoolHealth_policy_witness:
  "initializing warming \<and>
   trace (setPoolHealth warming) = trace warming @
     [Emit (InfoWorkersUpCount 2 (Some 2) (Some 2)), Send ''1'' 0 Healthy, Send ''2'' 1 Healthy] \<and>
   \<not> initializing (setPoolHealth warming) \<and>
   \<not> initializing degraded \<and>
   trace (setPoolHealth degraded) = trace degraded @
     [Emit (InfoWorkersUpCount 3 (Some 4) (Some 2)),
      Send ''1'' 0 Healthy, Send ''2'' 1 Healthy, Send ''3'' 2 Healthy, Send ''4'' 3 Healthy] \<and>
   \<not> initializing (steps degraded [((1, 0), Message ''3'' Ready), ((2, 0), Exit ''1'' (Some 1) None)])"
proof -
  have a: "setPoolHealth warming =
      warming\<lparr>initializing := False,
        trace := trace warming @
          [Emit (InfoWorkersUpCount 2 (Some 2) (Some 2)), Send ''1'' 0 Healthy, Send ''2'' 1 Healthy]\<rparr>"
    using setPoolHealth_policy [of warming "[]"] warming_facts by simp
  have b: "setPoolHealth degraded =
      degraded\<lparr>trace := trace degraded @
          [Emit (InfoWorkersUpCount 3 (Some 4) (Some 2)),
           Send ''1'' 0 Healthy, Send ''2'' 1 Healthy, Send ''3'' 2 Healthy, Send ''4'' 3 Healthy]\<rparr>"
    using setPoolHealth_policy [of degraded "[]"] degraded_facts by simp
  have c: "\<not> initializing (steps degraded [((1, 0), Message ''3'' Ready), ((2, 0), Exit ''1'' (Some 1) None)])"
    using setPoolHealth_policy [of degraded
        "[((1, 0), Message ''3'' Ready), ((2, 0), Exit ''1'' (Some 1) None)]"] degraded_facts
    by simp
  show ?thesis using warming_facts degraded_facts c by (simp add: a b)
qed


subsection \<open>Health broadcasts\<close>

lemma broadcast_map_entry:
  assumes "\<And>w. worker_id (f w) = worker_id w" and "\<And>w. pid (process (f w)) = pid (process w)"
  shows "broadcast (s\<lparr>workers := AList.map_entry k f (workers s)\<rparr>) a = broadcast s a"
proof -
  have "map (\<lambda>(k, w). Send (worker_id w) (pid (process w)) a) (AList.map_entry k f ws) =
        map (\<lambda>(k, w). Send (worker_id w) (pid (process w)) a) ws" for ws
    by (induction ws) (auto simp: assms)
  then show ?thesis by (simp add: broadcast_def)
qed

lemma poolStatus_health: "poolStatus i n wc mn = Healthy \<or> poolStatus i n wc mn = Unhealthy"
  by (simp add: poolStatus_def split: option.splits)

lemma filter_health_broadcast:
  "a = Healthy \<or> a = Unhealthy \<Longrightarrow> filter healthEffect (broadcast s a) = broadcast s a"
  by (auto simp: broadcast_def filter_map comp_def split_def)

lemma filter_health_Shutdown: "filter healthEffect (broadcast s Shutdown) = []"
  by (auto simp: broadcast_def filter_map comp_def split_def)

lemma filter_health_announce:
  "filter healthEffect (announce s) =
     broadcast s (poolStatus (initializing s) (workersUp s) (workerCount (settings s))
                    (minWorkerCount (settings s)))"
  using poolStatus_health by (simp add: announce_def filter_health_broadcast)

lemma drainAt_extends: "extends (\<lambda>e. isInfo e \<or> isKill e) s (drainAt n s)"
  using drain_extends [of s "stops s ! n"] by (simp add: drainAt_eq extends_def)

lemma fold_drainAt_extends: "extends (\<lambda>e. isInfo e \<or> isKill e) s (fold drainAt ns s)"
proof (induction ns arbitrary: s)
  case Nil
  show ?case by (simp add: extends_refl)
next
  case (Cons n ns)
  show ?case using extends_trans [OF drainAt_extends Cons.IH] by simp
qed

lemma jobs_extends: "extends (\<lambda>e. isInfo e \<or> isKill e) s (jobs now s)"
proof -
  have "extends (\<lambda>e. isInfo e \<or> isKill e) s (if allReady s = Joining [] then allUp now s else s)"
    by (simp add: allUp_def emit_def extends_def)
  from extends_trans [OF this fold_drainAt_extends] show ?thesis by (simp add: jobs_def)
qed

lemma settleAt_extends: "extends (\<lambda>e. isInfo e \<or> isKill e) s (settleAt n res s)"
  using settle_extends [of s res "stops s ! n"] by (simp add: settleAt_eq extends_def)

lemma fire_extends: "extends (\<lambda>e. isInfo e \<or> isKill e) s (fire n s)"
  using settleAt_extends [of "s\<lparr>stops := (stops s)[n := (stops s ! n)\<lparr>timer := None\<rparr>]\<rparr>" n "Fulfilled PROMISE_TIMEOUT"]
  by (simp add: fire_def extends_def)

lemma health_not_fork: "isFork e \<Longrightarrow> \<not> healthEffect e"
  by (cases e rule: healthEffect.cases) simp_all

lemma health_not_info: "isInfo e \<or> isKill e \<Longrightarrow> \<not> healthEffect e"
  by (cases e rule: healthEffect.cases) auto

lemma health_after_macrotask:
  "filter healthEffect (trace (jobs now (ticks x))) = filter healthEffect (trace x)"
proof -
  have "filter healthEffect (trace (jobs now (ticks x))) = filter healthEffect (trace (ticks x))"
    by (rule extends_filter [OF jobs_extends health_not_info])
  also have "\<dots> = filter healthEffect (trace x)"
    by (rule extends_filter [OF ticks_extends health_not_fork])
  finally show ?thesis .
qed


lemma map_entry_twice: "AList.map_entry k f (AList.map_entry k g xs) = AList.map_entry k (f \<circ> g) xs"
  by (induction xs) auto

lemma workersUp_map_entry_cong:
  assumes "\<And>w. state (f w) = state (g w)"
  shows "workersUp (s\<lparr>workers := AList.map_entry k f ws\<rparr>) = workersUp (s\<lparr>workers := AList.map_entry k g ws\<rparr>)"
proof -
  have "filter (\<lambda>(k, w). state w = Up) (AList.map_entry k f ws) = [] \<longleftrightarrow>
        filter (\<lambda>(k, w). state w = Up) (AList.map_entry k g ws) = []"
       "length (filter (\<lambda>(k, w). state w = Up) (AList.map_entry k f ws)) =
        length (filter (\<lambda>(k, w). state w = Up) (AList.map_entry k g ws))"
    by (induction ws) (auto simp: assms)
  then show ?thesis by (simp add: workersUp_def)
qed

lemma health_macrotask:
  "filter healthEffect (trace (macrotask now i s)) = filter healthEffect (trace s) @
     (case i of
        Message k Ready \<Rightarrow>
          (if map_of (workers s) k = None then []
           else Emit (WorkerUp k) # broadcast s (statusWhen s k Up))
      | Exit k c sg \<Rightarrow>
          (if listening s k then Emit (WorkerDown k c sg) # broadcast s (statusWhen s k Down)
           else [])
      | _ \<Rightarrow> [])"
proof (cases i)
  case (Configure st b)
  then show ?thesis by (simp add: macrotask_def configure_frame)
next
  case Start
  then show ?thesis
    using extends_filter [OF start_extends health_not_fork] by (simp add: macrotask_def)
next
  case Stop
  then show ?thesis by (simp add: macrotask_def stop_eq filter_health_Shutdown)
next
  case (Message k m)
  show ?thesis
  proof (cases m)
    case Ready
    have "broadcast (s\<lparr>workers := AList.map_entry k (\<lambda>w. w\<lparr>state := Up\<rparr>) (workers s)\<rparr>) a =
        broadcast s a" for a
      by (rule broadcast_map_entry) simp_all
    then show ?thesis
      using Message Ready
      by (auto simp: macrotask_def handler_Ready_eq filter_health_announce statusWhen_def)
  next
    case Heartbeat
    then show ?thesis
      using Message by (auto simp: macrotask_def handler_Heartbeat_eq split: option.splits)
  next
    case OtherMessage
    then show ?thesis
      using Message by (auto simp: macrotask_def handler_Other_eq split: option.splits)
  qed
next
  case (Exit k c sg)
  show ?thesis
  proof (cases "listening s k")
    case False
    then show ?thesis
      using Exit by (auto simp: macrotask_def processExit_def listening_def split: option.splits)
  next
    case True
    define x where "x = s\<lparr>workers := AList.map_entry k markExited (workers s)\<rparr>"
    have m: "macrotask now (Exit k c sg) s = exitHandler x k c sg"
      using True by (auto simp: macrotask_def processExit_def listening_def x_def split: option.splits)
    have w: "x\<lparr>workers := AList.map_entry k (\<lambda>w. w\<lparr>state := Down\<rparr>) (workers x)\<rparr> =
        s\<lparr>workers := AList.map_entry k ((\<lambda>w. w\<lparr>state := Down\<rparr>) \<circ> markExited) (workers s)\<rparr>"
      by (simp add: x_def map_entry_twice)
    have b: "broadcast (s\<lparr>workers := AList.map_entry k ((\<lambda>w. w\<lparr>state := Down\<rparr>) \<circ> markExited) (workers s)\<rparr>) a =
        broadcast s a" for a
      by (rule broadcast_map_entry) (simp_all add: markExited_def)
    have u: "workersUp (s\<lparr>workers := AList.map_entry k ((\<lambda>w. w\<lparr>state := Down\<rparr>) \<circ> markExited) (workers s)\<rparr>) =
        workersUp (s\<lparr>workers := AList.map_entry k (\<lambda>w. w\<lparr>state := Down\<rparr>) (workers s)\<rparr>)"
      by (rule workersUp_map_entry_cong) (simp add: markExited_def)
    have i: "initializing x = initializing s" and st: "settings x = settings s" and tr: "trace x = trace s"
      by (simp_all add: x_def)
    show ?thesis
      using True Exit
      by (simp add: m exitHandler_eq w filter_health_announce b u statusWhen_def i st tr)
  qed
next
  case MonitorTimer
  have "\<not> healthEffect e" if "isInfo e" for e using that health_not_info by blast
  from extends_filter [OF monitorHeartbeat_extends this] MonitorTimer
  show ?thesis by (simp add: macrotask_def split: option.splits)
next
  case (RaceTimer n)
  then show ?thesis
    using extends_filter [OF fire_extends health_not_info]
    by (simp add: macrotask_def)
qed


text \<open>
  C8. A worker's up event and a worker's down event each emit the pool-level event, run
  setPoolHealth once and thereby send one status message to every tracked worker,
  whether or not the status differs from the last one sent. The status is
  \<open>poolStatus\<close> of the \<open>initializing\<close> flag, the number of workers up, \<open>workerCount\<close> and
  \<open>minWorkerCount\<close>. In a turn of the event loop, status messages and \<^verbatim>\<open>workerUp\<close> or
  \<^verbatim>\<open>workerDown\<close> events appear only together: a ready message of a tracked worker and the
  exit of a running process each add the event followed by one broadcast, and every
  other turn adds neither.
\<close>

theorem health_broadcasts:
  "workerEmitUp s k =
     s\<lparr>initializing := initializing s \<and> workerCount (settings s) \<noteq> Some (int (workersUp s)),
       trace := trace s @ Emit (WorkerUp k) # announce s,
       allReady := resolveReady k (allReady s)\<rparr> \<and>
   workerEmitDown s k c sg =
     s\<lparr>initializing := initializing s \<and> workerCount (settings s) \<noteq> Some (int (workersUp s)),
       trace := trace s @ Emit (WorkerDown k c sg) # announce s,
       stops := map (resolveDown k) (stops s)\<rparr> \<and>
   announce s =
     Emit (InfoWorkersUpCount (workersUp s) (workerCount (settings s)) (minWorkerCount (settings s))) #
     map (\<lambda>(k, w). Send (worker_id w) (pid (process w))
            (poolStatus (initializing s) (workersUp s) (workerCount (settings s))
               (minWorkerCount (settings s))))
         (workers s) \<and>
   filter healthEffect (trace (step s (now, i))) = filter healthEffect (trace s) @
     (case i of
        Message k Ready \<Rightarrow>
          (if map_of (workers s) k = None then []
           else Emit (WorkerUp k) # broadcast s (statusWhen s k Up))
      | Exit k c sg \<Rightarrow>
          (if listening s k then Emit (WorkerDown k c sg) # broadcast s (statusWhen s k Down)
           else [])
      | _ \<Rightarrow> [])"
  by (simp add: workerEmitUp_eq workerEmitDown_eq announce_def broadcast_def step_def
        health_after_macrotask health_macrotask)


theorem health_broadcasts_witness:
  "filter healthEffect (trace (step (pool 4) ((1, 0), Exit ''3'' (Some 1) None))) =
     filter healthEffect (trace (pool 4)) @
     [Emit (WorkerDown ''3'' (Some 1) None),
      Send ''1'' 0 Healthy, Send ''2'' 1 Healthy, Send ''3'' 2 Healthy, Send ''4'' 3 Healthy] \<and>
   filter healthEffect (trace (step (pool 4) ((1, 0), Message ''3'' Heartbeat))) =
     filter healthEffect (trace (pool 4))"
  using health_broadcasts [of "pool 4" "''3''" "Some 1" None "(1, 0)" "Exit ''3'' (Some 1) None"]
    health_broadcasts [of "pool 4" "''3''" "Some 1" None "(1, 0)" "Message ''3'' Heartbeat"]
    pool4_crash
  by simp


subsection \<open>The worker mapping\<close>

lemma digitValue_digit: "d < 10 \<Longrightarrow> digitValue (digit d) = d"
proof -
  assume "d < 10"
  then have "d \<in> {0, 1, 2, 3, 4, 5, 6, 7, 8, 9}" by auto
  then show ?thesis
    by (auto simp: digitValue_def digit_def)
qed

lemma nat_of_string_of_nat: "nat_of_string (string_of_nat n) = n"
proof (induction n rule: string_of_nat.induct)
  case (1 n)
  show ?case
  proof (cases "n < 10")
    case True
    then show ?thesis
      by (subst string_of_nat.simps) (simp add: nat_of_string_def digitValue_digit)
  next
    case False
    with "1.IH" have "nat_of_string (string_of_nat (n div 10)) = n div 10" by simp
    then have "nat_of_string (string_of_nat (n div 10) @ [digit (n mod 10)]) = 10 * (n div 10) + n mod 10"
      by (simp add: nat_of_string_def digitValue_digit)
    with False show ?thesis by (subst string_of_nat.simps) simp
  qed
qed

lemma string_of_nat_inj: "string_of_nat m = string_of_nat n \<Longrightarrow> m = n"
  by (metis nat_of_string_of_nat)

lemma string_of_int_inj: "0 \<le> i \<Longrightarrow> 0 \<le> j \<Longrightarrow> string_of_int i = string_of_int j \<Longrightarrow> i = j"
  using string_of_nat_inj [of "nat i" "nat j"] by (simp add: string_of_int_def)

lemma distinct_ids: "distinct (map string_of_int [1..n])"
proof -
  have "inj_on string_of_int (set [1..n])"
    by (rule inj_onI) (auto intro: string_of_int_inj)
  then show ?thesis by (simp add: distinct_map)
qed


lemma update_fresh: "k \<notin> fst ` set xs \<Longrightarrow> AList.update k v xs = xs @ [(k, v)]"
  by (induction xs) auto

lemma createWorkers_roster:
  assumes "createWorkers is s ps = (Normal rs, s')"
    and "distinct (map string_of_int is)"
    and "\<forall>i\<in>set is. string_of_int i \<notin> fst ` set (workers s)"
  shows "roster s' = roster s @ map (\<lambda>i. (string_of_int i, string_of_int i)) is \<and>
         rs = ps @ map string_of_int is"
  using assms
proof (induction "is" arbitrary: s ps)
  case Nil
  then show ?case by simp
next
  case (Cons i "is")
  obtain c s1 where p: "createWorkerProcess s (string_of_int i) = (c, s1)"
    by (cases "createWorkerProcess s (string_of_int i)")
  obtain pr where c: "c = Normal pr"
    using Cons.prems(1) p by (cases c) simp_all
  define w where "w = connectWorkerProcessEvents \<lparr>worker_id = string_of_int i, state = Down, process = pr\<rparr>"
  define s2 where "s2 = s1\<lparr>workers := AList.update (string_of_int i) w (workers s1)\<rparr>"
  have d: "createWorkers (i # is) s ps = createWorkers is s2 (ps @ [string_of_int i])"
    using p c by (simp add: s2_def w_def Let_def)
  have w1: "workers s1 = workers s"
    using createWorkerProcess_launch [of s "string_of_int i"] p
    by (metis snd_conv supervisor.select_convs(4) supervisor.surjective supervisor.update_convs(10)
        supervisor.update_convs(11))
  have fresh: "string_of_int i \<notin> fst ` set (workers s)" using Cons.prems(3) by simp
  have w2: "workers s2 = workers s @ [(string_of_int i, w)]"
    by (simp add: s2_def w1 update_fresh [OF fresh])
  have r2: "roster s2 = roster s @ [(string_of_int i, string_of_int i)]"
    by (simp add: roster_def w2 w_def connectWorkerProcessEvents_def)
  have "\<forall>j\<in>set is. string_of_int j \<notin> fst ` set (workers s2)"
    using Cons.prems(2,3) by (auto simp: w2 image_iff)
  with Cons.IH [of s2 "ps @ [string_of_int i]"] Cons.prems(1,2) d
  have "roster s' = roster s2 @ map (\<lambda>i. (string_of_int i, string_of_int i)) is \<and>
        rs = (ps @ [string_of_int i]) @ map string_of_int is"
    by simp
  then show ?case by (simp add: r2)
qed

lemma createWorkers_completes:
  assumes "workerEnv (settings s) = Some f" and "execArgv (settings s) = Some av"
  shows "\<exists>rs. fst (createWorkers is s ps) = Normal rs"
  using assms
proof (induction "is" arbitrary: s ps)
  case Nil
  show ?case by simp
next
  case (Cons i "is")
  define pr where "pr = \<lparr>pid = nextPid s, exited = False, exitListener = False\<rparr>"
  obtain s1 where p: "createWorkerProcess s (string_of_int i) = (Normal pr, s1)" and st: "settings s1 = settings s"
    using Cons.prems by (simp add: createWorkerProcess_eq pr_def)
  define w where "w = connectWorkerProcessEvents \<lparr>worker_id = string_of_int i, state = Down, process = pr\<rparr>"
  define s2 where "s2 = s1\<lparr>workers := AList.update (string_of_int i) w (workers s1)\<rparr>"
  have d: "createWorkers (i # is) s ps = createWorkers is s2 (ps @ [string_of_int i])"
    using p by (simp add: s2_def w_def Let_def)
  have "workerEnv (settings s2) = Some f" and "execArgv (settings s2) = Some av"
    using Cons.prems st by (simp_all add: s2_def)
  from Cons.IH [OF this] show ?case unfolding d .
qed

lemma createWorkerPool_roster:
  assumes "\<not> workerPoolCreated s" and "workers s = []" and "fst (createWorkerPool s) = Normal ()"
    and "workerCount (settings s) = Some n"
  shows "roster (snd (createWorkerPool s)) = map (\<lambda>i. (string_of_int i, string_of_int i)) [1..n]"
proof -
  obtain c s1 where p: "createWorkers [1..n] (s\<lparr>workerPoolCreated := True\<rparr>) [] = (c, s1)"
    by (cases "createWorkers [1..n] (s\<lparr>workerPoolCreated := True\<rparr>) []")
  obtain rs where c: "c = Normal rs"
    using assms p by (cases c) (simp_all add: createWorkerPool_def poolIds_def)
  have "roster s1 = roster (s\<lparr>workerPoolCreated := True\<rparr>) @ map (\<lambda>i. (string_of_int i, string_of_int i)) [1..n] \<and>
      rs = [] @ map string_of_int [1..n]"
    using p c assms(2) by (intro createWorkers_roster) (simp_all add: distinct_ids)
  then show ?thesis
    using assms p c by (simp add: createWorkerPool_def poolIds_def roster_def)
qed

lemma createWorkerPool_completes:
  assumes "workerEnv (settings s) = Some f" and "execArgv (settings s) = Some av"
  shows "fst (createWorkerPool s) = Normal ()"
proof -
  obtain rs where "fst (createWorkers (poolIds (workerCount (settings s))) (s\<lparr>workerPoolCreated := True\<rparr>) []) = Normal rs"
    using createWorkers_completes [of "s\<lparr>workerPoolCreated := True\<rparr>" f av] assms by auto
  then show ?thesis
    by (cases "createWorkers (poolIds (workerCount (settings s))) (s\<lparr>workerPoolCreated := True\<rparr>) []")
       (simp add: createWorkerPool_def)
qed

lemma createWorkerPool_again: "workerPoolCreated s \<Longrightarrow> createWorkerPool s = (Normal (), s)"
  by (simp add: createWorkerPool_def)


lemma roster_map_entry:
  assumes "\<And>w. worker_id (f w) = worker_id w"
  shows "roster (s\<lparr>workers := AList.map_entry k f (workers s)\<rparr>) = roster s"
proof -
  have "map (\<lambda>(k, w). (k, worker_id w)) (AList.map_entry k f ws) =
        map (\<lambda>(k, w). (k, worker_id w)) ws" for ws
    by (induction ws) (auto simp: assms)
  then show ?thesis by (simp add: roster_def)
qed

lemma roster_update:
  assumes "map_of ws k = Some w" and "worker_id v = worker_id w"
  shows "map (\<lambda>(k, w). (k, worker_id w)) (AList.update k v ws) = map (\<lambda>(k, w). (k, worker_id w)) ws"
  using assms by (induction ws) (auto split: if_splits)

lemma roster_replaceWorkerProcess: "roster (snd (replaceWorkerProcess s k)) = roster s"
  by (auto simp: replaceWorkerProcess_eq roster_def roster_update split: option.splits)

lemma roster_runTicks: "roster (runTicks ks s) = roster s"
  by (induction ks arbitrary: s) (simp_all add: roster_replaceWorkerProcess)

lemma roster_ticks: "roster (ticks s) = roster s"
  by (simp add: ticks_def roster_runTicks) (simp add: roster_def)

lemma roster_jobs: "roster (jobs now s) = roster s"
  by (simp add: roster_def jobs_frame)

lemma roster_exitHandler: "roster (exitHandler s k c sg) = roster s"
  using roster_map_entry [where f = "\<lambda>w. w\<lparr>state := Down\<rparr>" and s = s and k = k]
  by (simp add: exitHandler_eq roster_def)

lemma roster_macrotask:
  assumes "workerPoolCreated s"
  shows "roster (macrotask now i s) = roster s \<and> workerPoolCreated (macrotask now i s)"
proof (cases i)
  case (Configure st b)
  then show ?thesis using assms by (simp add: macrotask_def roster_def configure_frame)
next
  case Start
  then show ?thesis using assms by (simp add: macrotask_def start_def createWorkerPool_again roster_def)
next
  case Stop
  then show ?thesis using assms by (simp add: macrotask_def stop_eq roster_def)
next
  case (Message k m)
  have "roster (s\<lparr>workers := AList.map_entry k (\<lambda>w. w\<lparr>state := Up\<rparr>) (workers s)\<rparr>) = roster s"
    by (rule roster_map_entry) simp
  then show ?thesis
    using assms Message
    by (cases m)
       (auto simp: macrotask_def handler_Ready_eq handler_Heartbeat_eq handler_Other_eq roster_def
          split: option.splits)
next
  case (Exit k c sg)
  have a: "roster (s\<lparr>workers := AList.map_entry k markExited (workers s)\<rparr>) = roster s"
    by (rule roster_map_entry) (simp add: markExited_def)
  have b: "workerPoolCreated (exitHandler x k c sg) = workerPoolCreated x" for x
    by (simp add: exitHandler_eq)
  show ?thesis
    using assms Exit a
    by (auto simp: macrotask_def processExit_def roster_exitHandler b split: option.splits)
next
  case MonitorTimer
  then show ?thesis
    using assms by (auto simp: macrotask_def roster_def monitorHeartbeat_frame split: option.splits)
next
  case (RaceTimer n)
  then show ?thesis using assms by (simp add: macrotask_def roster_def fire_frame)
qed

lemma roster_step:
  assumes "workerPoolCreated s"
  shows "roster (step s ti) = roster s \<and> workerPoolCreated (step s ti)"
  using roster_macrotask [OF assms, of "fst ti" "snd ti"]
  by (simp add: step_def roster_jobs roster_ticks jobs_frame ticks_frame)

lemma roster_steps:
  assumes "workerPoolCreated s"
  shows "roster (steps s tis) = roster s \<and> workerPoolCreated (steps s tis)"
  using assms unfolding steps_def
proof (induction tis arbitrary: s)
  case Nil
  then show ?case by simp
next
  case (Cons ti tis)
  from roster_step [OF Cons.prems, of ti] Cons.IH [of "step s ti"] show ?case by simp
qed

lemma empty_runTicks: "workers s = [] \<Longrightarrow> workers (runTicks ks s) = []"
  by (induction ks arbitrary: s) (simp_all add: replaceWorkerProcess_eq)

lemma uncreated_step:
  assumes "workerPoolCreated s \<or> workers s = []"
  shows "workerPoolCreated (step s ti) \<or> workers (step s ti) = []"
proof (cases "workerPoolCreated s")
  case True
  then show ?thesis using roster_step by blast
next
  case False
  with assms have e: "workers s = []" by simp
  have m: "workerPoolCreated (macrotask (fst ti) (snd ti) s) \<or> workers (macrotask (fst ti) (snd ti) s) = []"
    using e
    by (cases "snd ti")
       (simp_all add: macrotask_def configure_frame start_frame stop_eq processExit_def
          monitorHeartbeat_frame fire_frame split: option.splits)
  show ?thesis
  proof (cases "workerPoolCreated (macrotask (fst ti) (snd ti) s)")
    case True
    then show ?thesis by (simp add: step_def jobs_frame ticks_frame)
  next
    case False
    with m have "workers (macrotask (fst ti) (snd ti) s) = []" by simp
    then have "workers (ticks (macrotask (fst ti) (snd ti) s)) = []"
      by (simp add: ticks_def empty_runTicks)
    then show ?thesis by (simp add: step_def jobs_frame)
  qed
qed

lemma uncreated_steps: "workerPoolCreated (steps constructor tis) \<or> workers (steps constructor tis) = []"
proof -
  have "workerPoolCreated s \<or> workers s = [] \<Longrightarrow>
        workerPoolCreated (foldl step s tis) \<or> workers (foldl step s tis) = []" for s
    by (induction tis arbitrary: s) (simp_all add: uncreated_step)
  then show ?thesis by (simp add: steps_def constructor_def)
qed


lemma createWorkerPool_ids:
  assumes "\<not> workerPoolCreated s" and "workers s = []" and "fst (createWorkerPool s) = Normal ()"
  shows "roster (snd (createWorkerPool s)) =
     map (\<lambda>i. (string_of_int i, string_of_int i)) (poolIds (workerCount (settings s)))"
proof (cases "workerCount (settings s)")
  case None
  then show ?thesis using assms by (simp add: createWorkerPool_def poolIds_def roster_def)
next
  case (Some n)
  with createWorkerPool_roster [OF assms Some] show ?thesis by (simp add: poolIds_def)
qed

lemma createWorkerPool_none:
  assumes "\<not> workerPoolCreated s" and "poolIds (workerCount (settings s)) = []"
  shows "createWorkerPool s = (Normal (), s\<lparr>workerPoolCreated := True, allReady := Joining []\<rparr>)"
  using assms by (simp add: createWorkerPool_def)

lemma createWorkerPool_throws:
  assumes "\<not> workerPoolCreated s" and "poolIds (workerCount (settings s)) \<noteq> []"
    and "workerEnv (settings s) = None \<or> execArgv (settings s) = None"
  shows "createWorkerPool s = (Throw TypeError, s\<lparr>workerPoolCreated := True\<rparr>)"
proof -
  obtain i "is" where ids: "poolIds (workerCount (settings s)) = i # is"
    using assms(2) by (cases "poolIds (workerCount (settings s))") simp_all
  have "createWorkerProcess (s\<lparr>workerPoolCreated := True\<rparr>) (string_of_int i) =
      (Throw TypeError, s\<lparr>workerPoolCreated := True\<rparr>)"
    using assms(3) by (auto simp: createWorkerProcess_def split: option.splits)
  then have "createWorkers (i # is) (s\<lparr>workerPoolCreated := True\<rparr>) [] =
      (Throw TypeError, s\<lparr>workerPoolCreated := True\<rparr>)"
    by simp
  then show ?thesis using assms(1) by (simp add: createWorkerPool_def ids)
qed

lemma bare_facts:
  "fst (configure constructor bareSettings no_settings) = Normal () \<and>
   \<not> workerPoolCreated bare \<and> workers bare = [] \<and>
   workerCount (settings bare) = Some 2 \<and> execArgv (settings bare) = None \<and>
   poolIds (workerCount (settings bare)) = [1, 2] \<and>
   \<not> workerPoolCreated configured3 \<and> workers configured3 = [] \<and>
   poolIds (workerCount (settings configured3)) = [1, 2, 3] \<and>
   execArgv (settings configured3) = Some [] \<and>
   map (\<lambda>i. (string_of_int i, string_of_int i)) [1, 2, 3 :: int] =
     [(''1'', ''1''), (''2'', ''2''), (''3'', ''3'')]"
  by code_simp

lemma configured3_workerEnv: "workerEnv (settings configured3) \<noteq> None"
  by (simp add: configured3_def configure_def constructor_def poolSettings_def no_settings_def
        spread_def DEFAULT_SETTINGS_def Let_def)

text \<open>
  C10. Before the pool is created the mapping is empty. On such a supervisor
  createWorkerPool sets \<open>workerPoolCreated\<close> and then launches the workers "1" to
  "workerCount". When the settings have \<open>workerEnv\<close> and \<open>execArgv\<close>, or there is no id to
  launch, it returns normally and leaves exactly these keys, in this order, each holding
  the worker with that id. When there is an id to launch and \<open>workerEnv\<close> or \<open>execArgv\<close> is
  missing, the first launch throws: the call ends with a TypeError, \<open>workerPoolCreated\<close>
  set and the mapping as it was, empty. Once \<open>workerPoolCreated\<close> is true, createWorkerPool
  returns at once with the state unchanged, and no run of the event loop (exits and
  replacements, \<open>stop\<close>, a second \<open>start\<close>, timers) changes the keys or the ids stored
  under them. replaceWorkerProcess leaves the mapping as it is or gives the worker under
  the one key a new process handle.
\<close>

theorem worker_mapping_fixed:
  "(\<not> workerPoolCreated (steps constructor before) \<longrightarrow> workers (steps constructor before) = []) \<and>
   workerPoolCreated (snd (createWorkerPool s)) \<and>
   (\<not> workerPoolCreated s \<and> workers s = [] \<and>
    (poolIds (workerCount (settings s)) = [] \<or>
     workerEnv (settings s) \<noteq> None \<and> execArgv (settings s) \<noteq> None) \<longrightarrow>
      fst (createWorkerPool s) = Normal () \<and>
      roster (snd (createWorkerPool s)) =
        map (\<lambda>i. (string_of_int i, string_of_int i)) (poolIds (workerCount (settings s)))) \<and>
   (workerCount (settings s) = Some n \<longrightarrow> poolIds (workerCount (settings s)) = [1..n]) \<and>
   (\<not> workerPoolCreated s \<and> poolIds (workerCount (settings s)) \<noteq> [] \<and>
    (workerEnv (settings s) = None \<or> execArgv (settings s) = None) \<longrightarrow>
      createWorkerPool s = (Throw TypeError, s\<lparr>workerPoolCreated := True\<rparr>)) \<and>
   (workerPoolCreated s \<longrightarrow> createWorkerPool s = (Normal (), s)) \<and>
   (workerPoolCreated s \<longrightarrow> roster (steps s tis) = roster s \<and> workerPoolCreated (steps s tis)) \<and>
   (workers (snd (replaceWorkerProcess s k)) = workers s \<or>
    (\<exists>w p. map_of (workers s) k = Some w \<and>
       workers (snd (replaceWorkerProcess s k)) = AList.update k (w\<lparr>process := p\<rparr>) (workers s)))"
proof (intro conjI impI)
  assume "\<not> workerPoolCreated (steps constructor before)"
  then show "workers (steps constructor before) = []" using uncreated_steps [of before] by simp
next
  show "workerPoolCreated (snd (createWorkerPool s))" by (rule createWorkerPool_frame)
next
  assume a: "\<not> workerPoolCreated s \<and> workers s = [] \<and>
    (poolIds (workerCount (settings s)) = [] \<or>
     workerEnv (settings s) \<noteq> None \<and> execArgv (settings s) \<noteq> None)"
  then show n: "fst (createWorkerPool s) = Normal ()"
    by (auto simp: createWorkerPool_none intro: createWorkerPool_completes)
  from a show "roster (snd (createWorkerPool s)) =
        map (\<lambda>i. (string_of_int i, string_of_int i)) (poolIds (workerCount (settings s)))"
    by (intro createWorkerPool_ids n) simp_all
next
  assume "workerCount (settings s) = Some n"
  then show "poolIds (workerCount (settings s)) = [1..n]" by (simp add: poolIds_def)
next
  assume "\<not> workerPoolCreated s \<and> poolIds (workerCount (settings s)) \<noteq> [] \<and>
    (workerEnv (settings s) = None \<or> execArgv (settings s) = None)"
  then show "createWorkerPool s = (Throw TypeError, s\<lparr>workerPoolCreated := True\<rparr>)"
    by (intro createWorkerPool_throws) simp_all
next
  assume "workerPoolCreated s"
  then show "createWorkerPool s = (Normal (), s)" by (rule createWorkerPool_again)
next
  assume "workerPoolCreated s"
  then show "roster (steps s tis) = roster s" and "workerPoolCreated (steps s tis)"
    by (simp_all add: roster_steps)
next
  show "workers (snd (replaceWorkerProcess s k)) = workers s \<or>
    (\<exists>w p. map_of (workers s) k = Some w \<and>
       workers (snd (replaceWorkerProcess s k)) = AList.update k (w\<lparr>process := p\<rparr>) (workers s))"
    by (auto simp: replaceWorkerProcess_eq split: option.splits)
qed

theorem worker_mapping_fixed_witness:
  "roster (snd (createWorkerPool configured3)) = [(''1'', ''1''), (''2'', ''2''), (''3'', ''3'')] \<and>
   fst (createWorkerPool configured3) = Normal () \<and>
   createWorkerPool bare = (Throw TypeError, bare\<lparr>workerPoolCreated := True\<rparr>) \<and>
   workerPoolCreated (pool 4) \<and>
   createWorkerPool (pool 4) = (Normal (), pool 4) \<and>
   roster (steps (pool 4)
      [((1, 0), Exit ''2'' (Some 1) None), ((2, 0), Start), ((3, 0), Message ''2'' Ready),
       ((4, 0), Stop), ((5, 0), Exit ''1'' (Some 0) None), ((9, 0), RaceTimer 0)]) =
     [(''1'', ''1''), (''2'', ''2''), (''3'', ''3''), (''4'', ''4'')]"
  using worker_mapping_fixed [where s = configured3 and n = 3]
    worker_mapping_fixed [where s = bare and n = 2]
    worker_mapping_fixed [where s = "pool 4" and n = 4 and tis =
      "[((1, 0), Exit ''2'' (Some 1) None), ((2, 0), Start), ((3, 0), Message ''2'' Ready),
        ((4, 0), Stop), ((5, 0), Exit ''1'' (Some 0) None), ((9, 0), RaceTimer 0)]"]
    bare_facts configured3_workerEnv pool4_roster
  by simp

text \<open>
  Settings that configure accepts and that give no \<open>execArgv\<close>, with no base settings:
  \<open>start\<close> throws at the first launch, and the mapping of the supervisor, whose
  \<open>workerCount\<close> is 2, is empty after the call and stays empty when \<open>start\<close> is called
  again.
\<close>

theorem start_without_execArgv:
  "fst (configure constructor bareSettings no_settings) = Normal () \<and>
   workerCount (settings bare) = Some 2 \<and>
   fst (start bare) = Throw TypeError \<and>
   workerPoolCreated (snd (start bare)) \<and>
   workers (snd (start bare)) = [] \<and>
   workers (steps constructor
      [((0, 0), Configure bareSettings no_settings), ((0, 0), Start), ((1, 0), Start)]) = []"
  by code_simp


subsection \<open>Replacing a process that ended\<close>

lemma map_entry_Nil: "(AList.map_entry k f xs = []) = (xs = [])"
  by (cases xs) simp_all

lemma update_not_Nil: "AList.update k v xs \<noteq> []"
  by (cases xs) simp_all

lemma equipped_replaceWorkerProcess: "equipped s \<Longrightarrow> equipped (snd (replaceWorkerProcess s k))"
  by (auto simp: equipped_def replaceWorkerProcess_eq update_not_Nil split: option.splits)

lemma equipped_runTicks: "equipped s \<Longrightarrow> equipped (runTicks ks s)"
  by (induction ks arbitrary: s) (simp_all add: equipped_replaceWorkerProcess)

lemma equipped_ticks: "equipped s \<Longrightarrow> equipped (ticks s)"
proof -
  assume "equipped s"
  then have "equipped (s\<lparr>nextTickQueue := []\<rparr>)" by (simp add: equipped_def)
  then show ?thesis unfolding ticks_def by (rule equipped_runTicks)
qed

lemma equipped_jobs: "equipped s \<Longrightarrow> equipped (jobs now s)"
  by (simp add: equipped_def jobs_frame)

lemma equipped_createWorkerPool:
  assumes "equipped s"
  shows "equipped (snd (createWorkerPool s))"
proof (cases "workerPoolCreated s")
  case True
  then show ?thesis using assms by (simp add: createWorkerPool_again)
next
  case fresh: False
  show ?thesis
  proof (cases "poolIds (workerCount (settings s)) = []")
    case True
    with fresh assms show ?thesis by (simp add: createWorkerPool_none equipped_def)
  next
    case ids: False
    show ?thesis
    proof (cases "workerEnv (settings s) = None \<or> execArgv (settings s) = None")
      case True
      from createWorkerPool_throws [OF fresh ids True] assms show ?thesis
        by (auto simp: equipped_def)
    next
      case False
      have "configured s" using assms ids by (auto simp: equipped_def poolIds_def)
      with False show ?thesis by (simp add: equipped_def createWorkerPool_frame)
    qed
  qed
qed

lemma equipped_macrotask:
  assumes "equipped s"
  shows "equipped (macrotask now i s)"
proof (cases i)
  case (Configure st b)
  then show ?thesis
    using assms by (auto simp: macrotask_def configure_def equipped_def Let_def)
next
  case Start
  have "equipped (s\<lparr>closing := False\<rparr>)" using assms by (simp add: equipped_def)
  then show ?thesis using Start by (simp add: macrotask_def start_def equipped_createWorkerPool)
next
  case Stop
  then show ?thesis using assms by (simp add: macrotask_def stop_eq equipped_def)
next
  case (Message k m)
  then show ?thesis
    using assms
    by (cases m)
       (auto simp: macrotask_def handler_Ready_eq handler_Heartbeat_eq handler_Other_eq
          equipped_def map_entry_Nil split: option.splits)
next
  case (Exit k c sg)
  then show ?thesis
    using assms
    by (auto simp: macrotask_def processExit_def exitHandler_eq equipped_def map_entry_Nil
          split: option.splits)
next
  case MonitorTimer
  then show ?thesis
    using assms
    by (auto simp: macrotask_def monitorHeartbeat_frame equipped_def split: option.splits)
next
  case (RaceTimer n)
  then show ?thesis using assms by (simp add: macrotask_def equipped_def fire_frame)
qed

lemma atRest_step: "atRest s \<Longrightarrow> atRest (step s ti)"
  unfolding step_def atRest_def
  by (simp add: jobs_frame ticks_frame equipped_jobs equipped_ticks equipped_macrotask)

lemma atRest_steps: "atRest s \<Longrightarrow> atRest (steps s tis)"
proof (induction tis arbitrary: s)
  case Nil
  then show ?case by (simp add: steps_def)
next
  case (Cons ti tis)
  from Cons.IH [OF atRest_step [OF Cons.prems]] show ?case by (simp add: steps_def)
qed

lemma atRest_constructor: "atRest constructor"
  by (simp add: atRest_def equipped_def constructor_def no_settings_def)

lemma fork_announce: "filter isFork (announce y) = []"
  by (auto simp: announce_def broadcast_def filter_empty_conv)

lemma info_not_fork: "isInfo e \<or> isKill e \<Longrightarrow> \<not> isFork e"
  by (cases e) auto

lemma exit_macrotask:
  assumes "listening s k" and "map_of (workers s) k = Some w"
  shows "macrotask now (Exit k c sg) s =
      exitHandler (s\<lparr>workers := AList.map_entry k markExited (workers s)\<rparr>) k c sg"
    and "closing (macrotask now (Exit k c sg) s) = closing s"
    and "settings (macrotask now (Exit k c sg) s) = settings s"
    and "nextPid (macrotask now (Exit k c sg) s) = nextPid s"
    and "nextTickQueue (macrotask now (Exit k c sg) s) =
      nextTickQueue s @ (if c = Some 0 then [] else [k])"
    and "map_of (workers (macrotask now (Exit k c sg) s)) k =
      Some \<lparr>worker_id = worker_id w, state = Down,
            process = \<lparr>pid = pid (process w), exited = True, exitListener = False\<rparr>\<rparr>"
    and "filter isFork (trace (macrotask now (Exit k c sg) s)) = filter isFork (trace s)"
proof -
  show m: "macrotask now (Exit k c sg) s =
      exitHandler (s\<lparr>workers := AList.map_entry k markExited (workers s)\<rparr>) k c sg"
    using assms by (auto simp: macrotask_def processExit_def listening_def split: option.splits)
  show "closing (macrotask now (Exit k c sg) s) = closing s"
    by (simp add: m exitHandler_eq)
  show "settings (macrotask now (Exit k c sg) s) = settings s"
    by (simp add: m exitHandler_eq)
  show "nextPid (macrotask now (Exit k c sg) s) = nextPid s"
    by (simp add: m exitHandler_eq)
  show "nextTickQueue (macrotask now (Exit k c sg) s) =
      nextTickQueue s @ (if c = Some 0 then [] else [k])"
    by (simp add: m exitHandler_eq)
  show "map_of (workers (macrotask now (Exit k c sg) s)) k =
      Some \<lparr>worker_id = worker_id w, state = Down,
            process = \<lparr>pid = pid (process w), exited = True, exitListener = False\<rparr>\<rparr>"
    using assms(2) by (simp add: m exitHandler_eq map_of_map_entry markExited_def)
  show "filter isFork (trace (macrotask now (Exit k c sg) s)) = filter isFork (trace s)"
    by (simp add: m exitHandler_eq fork_announce)
qed

lemma exit_step:
  assumes "atRest s" and "listening s k" and "map_of (workers s) k = Some w"
  shows "step s (now, Exit k c sg) =
      jobs now (if c = Some 0 then (macrotask now (Exit k c sg) s)\<lparr>nextTickQueue := []\<rparr>
                else snd (replaceWorkerProcess ((macrotask now (Exit k c sg) s)\<lparr>nextTickQueue := []\<rparr>) k))"
  using assms(1) exit_macrotask(5) [OF assms(2,3), of now c sg]
  by (simp add: step_def ticks_def atRest_def)

lemma jobs_forks: "filter isFork (trace (jobs now s)) = filter isFork (trace s)"
  by (rule extends_filter [OF jobs_extends]) (rule info_not_fork)

lemma exit_not_replaced:
  assumes "atRest s" and "listening s k" and "c = Some 0 \<or> closing s"
  shows "filter isFork (trace (step s (now, Exit k c sg))) = filter isFork (trace s)"
    and "\<not> listening (step s (now, Exit k c sg)) k"
proof -
  obtain w where w: "map_of (workers s) k = Some w"
    using assms(2) by (auto simp: listening_def split: option.splits)
  note m = exit_macrotask [OF assms(2) w, of now c sg]
  have r: "c \<noteq> Some 0 \<Longrightarrow>
      replaceWorkerProcess ((macrotask now (Exit k c sg) s)\<lparr>nextTickQueue := []\<rparr>) k =
        (Normal (), (macrotask now (Exit k c sg) s)\<lparr>nextTickQueue := []\<rparr>)"
    using assms(3) m(2) by (simp add: replaceWorkerProcess_eq)
  have st: "step s (now, Exit k c sg) = jobs now ((macrotask now (Exit k c sg) s)\<lparr>nextTickQueue := []\<rparr>)"
    using r by (simp add: exit_step [OF assms(1,2) w])
  show "filter isFork (trace (step s (now, Exit k c sg))) = filter isFork (trace s)"
    by (simp add: st jobs_forks m(7))
  show "\<not> listening (step s (now, Exit k c sg)) k"
    by (simp add: st listening_def jobs_frame m(6))
qed

lemma exit_replaced:
  assumes "atRest s" and "listening s k" and "c \<noteq> Some 0" and "\<not> closing s"
  shows "\<exists>w f av. map_of (workers s) k = Some w \<and> workerEnv (settings s) = Some f \<and>
      execArgv (settings s) = Some av \<and>
      filter isFork (trace (step s (now, Exit k c sg))) =
        filter isFork (trace s) @
        [Fork (nextPid s) (exec (settings s)) (args (settings s))
           (objectLiteral ((case env (settings s) of None \<Rightarrow> [] | Some b \<Rightarrow> b) @ f (worker_id w) @
            [(''POOL_HALL_ID'', worker_id w),
             (''POOL_HALL_HEARTBEAT_INTERVAL'', template (heartbeatWorkerInterval (settings s)))]))
           av] \<and>
      map_of (workers (step s (now, Exit k c sg))) k =
        Some \<lparr>worker_id = worker_id w, state = Down,
              process = \<lparr>pid = nextPid s, exited = False, exitListener = True\<rparr>\<rparr>"
proof -
  obtain w where w: "map_of (workers s) k = Some w"
    using assms(2) by (auto simp: listening_def split: option.splits)
  then have "workers s \<noteq> []" by auto
  with assms(1) obtain f av where f: "workerEnv (settings s) = Some f" and av: "execArgv (settings s) = Some av"
    by (auto simp: atRest_def equipped_def)
  note m = exit_macrotask [OF assms(2) w, of now c sg]
  define x where "x = (macrotask now (Exit k c sg) s)\<lparr>nextTickQueue := []\<rparr>"
  have x: "closing x = closing s" "settings x = settings s" "nextPid x = nextPid s"
    "map_of (workers x) k = Some \<lparr>worker_id = worker_id w, state = Down,
        process = \<lparr>pid = pid (process w), exited = True, exitListener = False\<rparr>\<rparr>"
    "filter isFork (trace x) = filter isFork (trace s)"
    by (simp_all add: x_def m(2-7))
  have st: "step s (now, Exit k c sg) = jobs now (snd (replaceWorkerProcess x k))"
    using assms(3) by (simp add: exit_step [OF assms(1,2) w] x_def)
  have r: "snd (replaceWorkerProcess x k) =
      x\<lparr>trace := trace x @
           [Fork (nextPid s) (exec (settings s)) (args (settings s))
              (objectLiteral ((case env (settings s) of None \<Rightarrow> [] | Some b \<Rightarrow> b) @ f (worker_id w) @
               [(''POOL_HALL_ID'', worker_id w),
                (''POOL_HALL_HEARTBEAT_INTERVAL'', template (heartbeatWorkerInterval (settings s)))]))
              av],
        nextPid := Suc (nextPid s),
        workers := AList.update k
          \<lparr>worker_id = worker_id w, state = Down,
            process = \<lparr>pid = nextPid s, exited = False, exitListener = True\<rparr>\<rparr> (workers x)\<rparr>"
    using assms(4) x f av by (simp add: replaceWorkerProcess_eq)
  have "filter isFork (trace (step s (now, Exit k c sg))) =
        filter isFork (trace s) @
        [Fork (nextPid s) (exec (settings s)) (args (settings s))
           (objectLiteral ((case env (settings s) of None \<Rightarrow> [] | Some b \<Rightarrow> b) @ f (worker_id w) @
            [(''POOL_HALL_ID'', worker_id w),
             (''POOL_HALL_HEARTBEAT_INTERVAL'', template (heartbeatWorkerInterval (settings s)))]))
           av]"
    by (simp add: st jobs_forks r x(5))
  moreover have "map_of (workers (step s (now, Exit k c sg))) k =
        Some \<lparr>worker_id = worker_id w, state = Down,
              process = \<lparr>pid = nextPid s, exited = False, exitListener = True\<rparr>\<rparr>"
    by (simp add: st jobs_frame r update_conv')
  ultimately show ?thesis using w f av by blast
qed

lemma map_of_fold_update:
  "map_of (fold (\<lambda>(k, v). AList.update k v) ps acc) = map_of acc ++ map_of (rev ps)"
proof (induction ps arbitrary: acc)
  case Nil
  show ?case by simp
next
  case (Cons p ps)
  obtain k v where p: "p = (k, v)" by (cases p)
  have "map_of (fold (\<lambda>(k, v). AList.update k v) (p # ps) acc) =
      map_of (AList.update k v acc) ++ map_of (rev ps)"
    by (simp add: p Cons.IH)
  also have "\<dots> = map_of acc ++ map_of (rev (p # ps))"
    by (simp add: p update_conv' map_add_def fun_eq_iff split: option.splits)
  finally show ?case .
qed

lemma objectLiteral_later: "map_of (objectLiteral ps) = map_of (rev ps)"
  by (simp add: objectLiteral_def map_of_fold_update)

lemma objectLiteral_id:
  "map_of (objectLiteral (ps @ [(''POOL_HALL_ID'', i), (''POOL_HALL_HEARTBEAT_INTERVAL'', t)]))
     ''POOL_HALL_ID'' = Some i"
  by (simp add: objectLiteral_def update_conv')

lemma pool4_launch:
  "map_of (workers (pool 4)) ''3'' =
     Some \<lparr>worker_id = ''3'', state = Up,
           process = \<lparr>pid = 2, exited = False, exitListener = True\<rparr>\<rparr> \<and>
   map_option (\<lambda>g. g ''3'') (workerEnv (settings (pool 4))) = Some [] \<and>
   execArgv (settings (pool 4)) = Some [] \<and> env (settings (pool 4)) = None \<and>
   exec (settings (pool 4)) = None \<and> args (settings (pool 4)) = None \<and>
   nextPid (pool 4) = 4 \<and> template (heartbeatWorkerInterval (settings (pool 4))) = ''500'' \<and>
   \<not> closing (pool 4) \<and> closing stopping \<and> listening stopping ''1'' \<and>
   objectLiteral [(''POOL_HALL_ID'', ''3''), (''POOL_HALL_HEARTBEAT_INTERVAL'', ''500'')] =
     [(''POOL_HALL_ID'', ''3''), (''POOL_HALL_HEARTBEAT_INTERVAL'', ''500'')]"
  by code_simp

text \<open>
  C2. The listener of a process's exit sets the worker down and emits \<^verbatim>\<open>'down'\<close>; then,
  for the exit code 0, it emits \<^verbatim>\<open>'terminated'\<close> and queues nothing, and for any other
  exit code, or none, it queues a call of replaceWorkerProcess with \<^verbatim>\<open>process.nextTick\<close>.
  Neither half reads or writes \<open>closing\<close>. replaceWorkerProcess reads \<open>closing\<close> when it
  runs: if it is true nothing happens, otherwise one process is launched, whose
  environment gives \<^verbatim>\<open>POOL_HALL_ID\<close> the id of the worker whatever the settings say, and
  the worker, under its key, gets the new process with the exit listener attached. In a turn of the event loop nothing of the supervisor runs between the
  listener and the queued call. So, for every state the event loop reaches and every
  worker whose process is running: an exit with a code other than 0 while \<open>closing\<close> is
  false launches exactly one process, for the id of that worker; the same exit while
  \<open>closing\<close> is true launches none; and an exit with code 0 launches none, whatever
  \<open>closing\<close> is.
\<close>

theorem exit_replacement:
  "(closing s \<longrightarrow> replaceWorkerProcess s k = (Normal (), s)) \<and>
   (\<not> closing s \<and> map_of (workers s) k = Some w \<and> workerEnv (settings s) = Some f \<and>
    execArgv (settings s) = Some av \<longrightarrow>
      replaceWorkerProcess s k =
        (Normal (),
         s\<lparr>trace := trace s @
              [Fork (nextPid s) (exec (settings s)) (args (settings s))
                 (objectLiteral ((case env (settings s) of None \<Rightarrow> [] | Some b \<Rightarrow> b) @ f (worker_id w) @
                  [(''POOL_HALL_ID'', worker_id w),
                   (''POOL_HALL_HEARTBEAT_INTERVAL'',
                    template (heartbeatWorkerInterval (settings s)))]))
                 av],
           nextPid := Suc (nextPid s),
           workers := AList.update k
             (w\<lparr>process := \<lparr>pid = nextPid s, exited = False, exitListener = True\<rparr>\<rparr>)
             (workers s)\<rparr>)) \<and>
   exitHandler s k (Some 0) sg =
     (exitDown s k (Some 0) sg)\<lparr>trace := trace (exitDown s k (Some 0) sg) @
        [Emit (WorkerTerminated k)]\<rparr> \<and>
   (c \<noteq> Some 0 \<longrightarrow>
      exitHandler s k c sg =
        (exitDown s k c sg)\<lparr>nextTickQueue := nextTickQueue (exitDown s k c sg) @ [k]\<rparr>) \<and>
   closing (exitDown s k c sg) = closing s \<and>
   map_of (objectLiteral (ps @ [(''POOL_HALL_ID'', i), (''POOL_HALL_HEARTBEAT_INTERVAL'', t)]))
     ''POOL_HALL_ID'' = Some i \<and>
   (listening s k \<longrightarrow>
      macrotask now (Exit k c sg) s =
        exitHandler (s\<lparr>workers := AList.map_entry k markExited (workers s)\<rparr>) k c sg) \<and>
   (\<not> listening s k \<longrightarrow> macrotask now (Exit k c sg) s = s) \<and>
   atRest (steps constructor before) \<and>
   (atRest s \<longrightarrow> atRest (step s ti)) \<and>
   (atRest s \<and> listening s k \<and> c \<noteq> Some 0 \<and> \<not> closing s \<longrightarrow>
      (\<exists>w f av. map_of (workers s) k = Some w \<and> workerEnv (settings s) = Some f \<and>
         execArgv (settings s) = Some av \<and>
         filter isFork (trace (step s (now, Exit k c sg))) =
           filter isFork (trace s) @
           [Fork (nextPid s) (exec (settings s)) (args (settings s))
              (objectLiteral ((case env (settings s) of None \<Rightarrow> [] | Some b \<Rightarrow> b) @ f (worker_id w) @
               [(''POOL_HALL_ID'', worker_id w),
                (''POOL_HALL_HEARTBEAT_INTERVAL'', template (heartbeatWorkerInterval (settings s)))]))
              av] \<and>
         map_of (workers (step s (now, Exit k c sg))) k =
           Some \<lparr>worker_id = worker_id w, state = Down,
                 process = \<lparr>pid = nextPid s, exited = False, exitListener = True\<rparr>\<rparr>)) \<and>
   (atRest s \<and> listening s k \<and> c \<noteq> Some 0 \<and> closing s \<longrightarrow>
      filter isFork (trace (step s (now, Exit k c sg))) = filter isFork (trace s) \<and>
      \<not> listening (step s (now, Exit k c sg)) k) \<and>
   (atRest s \<and> listening s k \<longrightarrow>
      filter isFork (trace (step s (now, Exit k (Some 0) sg))) = filter isFork (trace s) \<and>
      \<not> listening (step s (now, Exit k (Some 0) sg)) k)"
proof (intro conjI impI)
  assume "closing s"
  then show "replaceWorkerProcess s k = (Normal (), s)" by (simp add: replaceWorkerProcess_eq)
next
  assume "\<not> closing s \<and> map_of (workers s) k = Some w \<and> workerEnv (settings s) = Some f \<and>
    execArgv (settings s) = Some av"
  then show "replaceWorkerProcess s k =
        (Normal (),
         s\<lparr>trace := trace s @
              [Fork (nextPid s) (exec (settings s)) (args (settings s))
                 (objectLiteral ((case env (settings s) of None \<Rightarrow> [] | Some b \<Rightarrow> b) @ f (worker_id w) @
                  [(''POOL_HALL_ID'', worker_id w),
                   (''POOL_HALL_HEARTBEAT_INTERVAL'',
                    template (heartbeatWorkerInterval (settings s)))]))
                 av],
           nextPid := Suc (nextPid s),
           workers := AList.update k
             (w\<lparr>process := \<lparr>pid = nextPid s, exited = False, exitListener = True\<rparr>\<rparr>)
             (workers s)\<rparr>)"
    by (simp add: replaceWorkerProcess_eq)
next
  show "exitHandler s k (Some 0) sg =
     (exitDown s k (Some 0) sg)\<lparr>trace := trace (exitDown s k (Some 0) sg) @
        [Emit (WorkerTerminated k)]\<rparr>"
    by (simp add: exitHandler_def exitBranch_def emit_def)
next
  assume "c \<noteq> Some 0"
  then show "exitHandler s k c sg =
        (exitDown s k c sg)\<lparr>nextTickQueue := nextTickQueue (exitDown s k c sg) @ [k]\<rparr>"
    by (simp add: exitHandler_def exitBranch_def)
next
  show "closing (exitDown s k c sg) = closing s" by (simp add: exitDown_eq)
next
  show "map_of (objectLiteral (ps @ [(''POOL_HALL_ID'', i), (''POOL_HALL_HEARTBEAT_INTERVAL'', t)]))
     ''POOL_HALL_ID'' = Some i"
    by (rule objectLiteral_id)
next
  assume "listening s k"
  then show "macrotask now (Exit k c sg) s =
        exitHandler (s\<lparr>workers := AList.map_entry k markExited (workers s)\<rparr>) k c sg"
    by (auto simp: macrotask_def processExit_def listening_def split: option.splits)
next
  assume "\<not> listening s k"
  then show "macrotask now (Exit k c sg) s = s"
    by (auto simp: macrotask_def processExit_def listening_def split: option.splits)
next
  show "atRest (steps constructor before)" by (rule atRest_steps [OF atRest_constructor])
next
  assume "atRest s"
  then show "atRest (step s ti)" by (rule atRest_step)
next
  assume "atRest s \<and> listening s k \<and> c \<noteq> Some 0 \<and> \<not> closing s"
  then show "\<exists>w f av. map_of (workers s) k = Some w \<and> workerEnv (settings s) = Some f \<and>
         execArgv (settings s) = Some av \<and>
         filter isFork (trace (step s (now, Exit k c sg))) =
           filter isFork (trace s) @
           [Fork (nextPid s) (exec (settings s)) (args (settings s))
              (objectLiteral ((case env (settings s) of None \<Rightarrow> [] | Some b \<Rightarrow> b) @ f (worker_id w) @
               [(''POOL_HALL_ID'', worker_id w),
                (''POOL_HALL_HEARTBEAT_INTERVAL'', template (heartbeatWorkerInterval (settings s)))]))
              av] \<and>
         map_of (workers (step s (now, Exit k c sg))) k =
           Some \<lparr>worker_id = worker_id w, state = Down,
                 process = \<lparr>pid = nextPid s, exited = False, exitListener = True\<rparr>\<rparr>"
    by (intro exit_replaced) simp_all
next
  assume a: "atRest s \<and> listening s k \<and> c \<noteq> Some 0 \<and> closing s"
  then show "filter isFork (trace (step s (now, Exit k c sg))) = filter isFork (trace s)"
    by (intro exit_not_replaced) simp_all
  from a show "\<not> listening (step s (now, Exit k c sg)) k"
    by (intro exit_not_replaced) simp_all
next
  assume a: "atRest s \<and> listening s k"
  then show "filter isFork (trace (step s (now, Exit k (Some 0) sg))) = filter isFork (trace s)"
    by (intro exit_not_replaced) simp_all
  from a show "\<not> listening (step s (now, Exit k (Some 0) sg)) k"
    by (intro exit_not_replaced) simp_all
qed

theorem exit_replacement_witness:
  "atRest (pool 4) \<and> listening (pool 4) ''3'' \<and> \<not> closing (pool 4) \<and>
   filter isFork (trace (step (pool 4) ((1, 0), Exit ''3'' (Some 1) None))) =
     filter isFork (trace (pool 4)) @
     [Fork 4 None None [(''POOL_HALL_ID'', ''3''), (''POOL_HALL_HEARTBEAT_INTERVAL'', ''500'')] []] \<and>
   map_of (workers (step (pool 4) ((1, 0), Exit ''3'' (Some 1) None))) ''3'' =
     Some \<lparr>worker_id = ''3'', state = Down,
           process = \<lparr>pid = 4, exited = False, exitListener = True\<rparr>\<rparr> \<and>
   filter isFork (trace (step (pool 4) ((1, 0), Exit ''3'' (Some 0) None))) =
     filter isFork (trace (pool 4)) \<and>
   atRest stopping \<and> listening stopping ''1'' \<and> closing stopping \<and>
   filter isFork (trace (step stopping ((2, 0), Exit ''1'' (Some 1) None))) =
     filter isFork (trace stopping) \<and>
   replaceWorkerProcess stopping ''1'' = (Normal (), stopping)"
proof -
  have r4: "atRest (pool 4)"
    using exit_replacement [where before = "[((0, 0), Configure (poolSettings 4) no_settings), ((0, 0), Start)] @
        map (\<lambda>i. ((0, 0), Message (string_of_int i) Ready)) [1..4]"]
    unfolding pool_def by simp
  have r1: "atRest (pool 1)"
    using exit_replacement [where before = "[((0, 0), Configure (poolSettings 1) no_settings), ((0, 0), Start)] @
        map (\<lambda>i. ((0, 0), Message (string_of_int i) Ready)) [1..1]"]
    unfolding pool_def by simp
  have rs: "atRest stopping"
    using exit_replacement [where s = "pool 1" and ti = "((1, 0), Stop)"] r1
    by (simp add: stopping_def)
  have l4: "listening (pool 4) ''3''" using pool4_crash by simp
  have 1: "filter isFork (trace (step (pool 4) ((1, 0), Exit ''3'' (Some 1) None))) =
     filter isFork (trace (pool 4)) @
     [Fork 4 None None [(''POOL_HALL_ID'', ''3''), (''POOL_HALL_HEARTBEAT_INTERVAL'', ''500'')] []]"
    and 2: "map_of (workers (step (pool 4) ((1, 0), Exit ''3'' (Some 1) None))) ''3'' =
     Some \<lparr>worker_id = ''3'', state = Down,
           process = \<lparr>pid = 4, exited = False, exitListener = True\<rparr>\<rparr>"
    using exit_replacement [where s = "pool 4" and k = "''3''" and c = "Some 1" and sg = None and
        now = "(1, 0)"] r4 l4 pool4_launch
    by auto
  have 3: "filter isFork (trace (step (pool 4) ((1, 0), Exit ''3'' (Some 0) None))) =
     filter isFork (trace (pool 4))"
    using exit_replacement [where s = "pool 4" and k = "''3''" and sg = None and now = "(1, 0)"] r4 l4
    by simp
  have 4: "filter isFork (trace (step stopping ((2, 0), Exit ''1'' (Some 1) None))) =
     filter isFork (trace stopping)"
    using exit_replacement [where s = stopping and k = "''1''" and c = "Some 1" and sg = None and
        now = "(2, 0)"] rs pool4_launch
    by simp
  have 5: "replaceWorkerProcess stopping ''1'' = (Normal (), stopping)"
    using exit_replacement [where s = stopping and k = "''1''"] pool4_launch by simp
  from r4 l4 rs 1 2 3 4 5 pool4_launch show ?thesis by simp
qed

text \<open>
  The pool of one worker, whose owner stops the supervisor when a worker goes down. The
  process of worker 1 exits with code 1 while \<open>closing\<close> is false: the listener of the
  owner runs within the \<^verbatim>\<open>'down'\<close> event and calls \<open>stop\<close>, so the queued
  replaceWorkerProcess finds \<open>closing\<close> true, and no process is launched.
\<close>

theorem crash_then_stop:
  "listening (pool 1) ''1'' \<and> \<not> closing (pool 1) \<and>
   trace crashStopped = trace (pool 1) @
     [Emit (WorkerDown ''1'' (Some 1) None), Emit (InfoWorkersUpCount 0 (Some 1) (Some 1)),
      Send ''1'' 0 Unhealthy, Send ''1'' 0 Shutdown] \<and>
   filter isFork (trace crashStopped) = filter isFork (trace (pool 1)) \<and>
   nextTickQueue crashStopped = [] \<and> \<not> listening crashStopped ''1''"
  by code_simp


subsection \<open>Kill sweeps\<close>




































end
